theory Spec2Isabelle
  imports Main "HOL-Library.Word"
begin

unbundle bit_operations_syntax

section \<open>Machine types and errors\<close>

type_synonym uint8_t = "8 word"
type_synonym uint32_t = "32 word"
type_synonym uint64_t = "64 word"

text \<open>
  A \<open>std::runtime_error\<close> carries its message. The second constructor stands for an
  access outside an allocated buffer or string, which the C++ source never checks.
\<close>

datatype error = runtime_error string | out_of_bounds

section \<open>The binary reader\<close>

text \<open>
  A file is its list of bytes. An open file descriptor is the file's contents with the
  kernel's read position; \<open>read\<close> on it returns the next bytes, as many as asked for or
  as are left, and \<open>lseek\<close> fails only for an offset that is negative as \<open>off_t\<close>.
  Hard I/O errors of \<open>read\<close> and \<open>close\<close> are outside the model.
\<close>

record file_desc =
  fd_contents :: "uint8_t list"
  fd_pos :: nat

text \<open>
  The class \<open>BinaryReader\<close>. \<open>fd = None\<close> is the source's \<open>fd == -1\<close>. The list \<open>buf\<close>
  holds the valid part of the buffer, \<open>buf[0 .. buflen)\<close>, so \<open>buflen\<close> is its length.
\<close>

record BinaryReader =
  fd :: "file_desc option"
  bufsize :: nat
  buf :: "uint8_t list"
  offset :: nat

definition DEFAULT_BUFFER_SIZE :: nat where
  "DEFAULT_BUFFER_SIZE = 1048576"

definition buflen :: "BinaryReader \<Rightarrow> nat" where
  "buflen reader = length (buf reader)"

definition BinaryReader_new :: "nat \<Rightarrow> BinaryReader" where
  "BinaryReader_new bufferSize = \<lparr>fd = None, bufsize = bufferSize, buf = [], offset = 0\<rparr>"

text \<open>
  \<open>openFile\<close> takes what \<open>open(filename, O_RDONLY)\<close> finds: \<open>None\<close> when the file cannot
  be opened, its bytes otherwise.
\<close>

definition openFile :: "BinaryReader \<Rightarrow> uint8_t list option \<Rightarrow> bool \<times> BinaryReader" where
  "openFile reader found =
     (if fd reader \<noteq> None then (False, reader)
      else case found of
             None \<Rightarrow> (False, reader)
           | Some bytes \<Rightarrow>
               (True, reader\<lparr>fd := Some \<lparr>fd_contents = bytes, fd_pos = 0\<rparr>, buf := [], offset := 0\<rparr>))"

definition seek :: "BinaryReader \<Rightarrow> uint64_t \<Rightarrow> error + BinaryReader" where
  "seek reader byteOffset =
     (case fd reader of
        None \<Rightarrow> Inl (runtime_error ''binary file not open'')
      | Some d \<Rightarrow>
          if 2 ^ 63 \<le> byteOffset then Inl (runtime_error ''binary file seek error'')
          else Inr (reader\<lparr>fd := Some (d\<lparr>fd_pos := unat byteOffset\<rparr>), buf := [], offset := 0\<rparr>))"

definition fillBuffer :: "BinaryReader \<Rightarrow> error + bool \<times> BinaryReader" where
  "fillBuffer reader =
     (case fd reader of
        None \<Rightarrow> Inl (runtime_error ''binary file not open'')
      | Some d \<Rightarrow>
          let bytes = take (bufsize reader) (drop (fd_pos d) (fd_contents d)) in
          if bytes = [] then Inr (False, reader)
          else Inr (True, reader\<lparr>fd := Some (d\<lparr>fd_pos := fd_pos d + length bytes\<rparr>),
                                    buf := bytes, offset := 0\<rparr>))"

text \<open>
  \<open>read_buffer\<close> yields the bytes read, or \<open>None\<close> for the source's \<open>false\<close> (end of file
  before \<open>numBytes\<close> bytes); the reader keeps what it consumed in both cases.
\<close>

function read_buffer_loop ::
  "BinaryReader \<Rightarrow> nat \<Rightarrow> nat \<Rightarrow> uint8_t list
     \<Rightarrow> error + (uint8_t list option \<times> BinaryReader)" where
  "read_buffer_loop reader numBytes i buffer =
     (if i < numBytes then
        (case (if offset reader \<ge> buflen reader then fillBuffer reader else Inr (True, reader)) of
           Inl e \<Rightarrow> Inl e
         | Inr (False, reader') \<Rightarrow> Inr (None, reader')
         | Inr (True, reader') \<Rightarrow>
             read_buffer_loop (reader'\<lparr>offset := offset reader' + 1\<rparr>) numBytes (i + 1)
               (buffer @ [buf reader' ! offset reader']))
      else Inr (Some buffer, reader))"
  by pat_completeness auto
termination
  by (relation "measure (\<lambda>(reader, numBytes, i, buffer). numBytes - i)") simp_all

declare read_buffer_loop.simps [simp del]

definition read_buffer ::
  "BinaryReader \<Rightarrow> nat \<Rightarrow> error + (uint8_t list option \<times> BinaryReader)" where
  "read_buffer reader numBytes = read_buffer_loop reader numBytes 0 []"

definition read_uint8 :: "BinaryReader \<Rightarrow> error + (uint8_t option \<times> BinaryReader)" where
  "read_uint8 reader =
     (case read_buffer reader 1 of
        Inl e \<Rightarrow> Inl e
      | Inr (None, reader') \<Rightarrow> Inr (None, reader')
      | Inr (Some bytes, reader') \<Rightarrow> Inr (Some (bytes ! 0), reader'))"

text \<open>
  \<open>BinaryReader::read_uint32\<close> combines its four bytes by
  \<open>value = (value << 8) + byte[i]\<close>, starting from 0.
\<close>

definition uint32_of_bytes :: "uint8_t list \<Rightarrow> uint32_t" where
  "uint32_of_bytes bytes = foldl (\<lambda>value byte. push_bit 8 value + ucast byte) 0 bytes"

definition BinaryReader_read_uint32 ::
  "BinaryReader \<Rightarrow> error + (uint32_t option \<times> BinaryReader)" where
  "BinaryReader_read_uint32 reader =
     (case read_buffer reader 4 of
        Inl e \<Rightarrow> Inl e
      | Inr (None, reader') \<Rightarrow> Inr (None, reader')
      | Inr (Some bytes, reader') \<Rightarrow> Inr (Some (uint32_of_bytes bytes), reader'))"

section \<open>The reference window\<close>

text \<open>
  The class \<open>ReferenceGenome\<close> of \<open>genutil.h\<close>: the fields \<open>begin\<close>, \<open>end\<close> and
  \<open>sequence\<close> (prefixed here, since \<open>begin\<close> and \<open>end\<close> are reserved words). The list
  \<open>rg_sequence\<close> is the allocated buffer, so its length is the allocation size.
\<close>

record ReferenceGenome =
  rg_begin :: uint32_t
  rg_end :: uint32_t
  rg_sequence :: string

section \<open>The constructor: reading a 2bit file\<close>

definition swap_uint32 :: "uint32_t \<Rightarrow> uint32_t" where
  "swap_uint32 value =
     push_bit 24 value + push_bit 8 (value AND 0xFF00) + drop_bit 8 (value AND 0xFF0000) +
     drop_bit 24 value"

text \<open>The file-local \<open>read_uint32(reader, swapBytes)\<close>, which throws on a short read.\<close>

definition read_uint32 :: "BinaryReader \<Rightarrow> bool \<Rightarrow> error + (uint32_t \<times> BinaryReader)" where
  "read_uint32 reader swapBytes =
     (case BinaryReader_read_uint32 reader of
        Inl e \<Rightarrow> Inl e
      | Inr (None, reader') \<Rightarrow> Inl (runtime_error ''truncated 2bit file'')
      | Inr (Some value, reader') \<Rightarrow>
          Inr (if swapBytes then swap_uint32 value else value, reader'))"

definition NUM_CHROMOSOMES :: nat where
  "NUM_CHROMOSOMES = 24"

text \<open>
  The two name tables, row by row as the source lays them out; entry 0 is the empty
  string.
\<close>

definition chrLongName :: "string list" where
  "chrLongName =
     ['''', ''chr1'', ''chr2'', ''chr3'', ''chr4''] @
     [''chr5'', ''chr6'', ''chr7'', ''chr8'', ''chr9''] @
     [''chr10'', ''chr11'', ''chr12'', ''chr13'', ''chr14''] @
     [''chr15'', ''chr16'', ''chr17'', ''chr18'', ''chr19''] @
     [''chr20'', ''chr21'', ''chr22'', ''chrX'', ''chrY'']"

definition chrShortName :: "string list" where
  "chrShortName =
     ['''', ''1'', ''2'', ''3'', ''4''] @
     [''5'', ''6'', ''7'', ''8'', ''9''] @
     [''10'', ''11'', ''12'', ''13'', ''14''] @
     [''15'', ''16'', ''17'', ''18'', ''19''] @
     [''20'', ''21'', ''22'', ''X'', ''Y'']"

definition EXPECTED_SIGNATURE :: uint32_t where
  "EXPECTED_SIGNATURE = 0x1A412743"

text \<open>
  The test of the directory loop,
  \<open>chrName == "" && (name == chrShortName[chrNumber] || name == chrLongName[chrNumber])
   || chrName != "" && name == chrName\<close>. The tables are indexed only when \<open>chrName\<close> is
  empty, and then the constructor has checked \<open>chrNumber\<close>.
\<close>

definition name_matches :: "uint8_t \<Rightarrow> string \<Rightarrow> string \<Rightarrow> bool" where
  "name_matches chrNumber chrName name \<longleftrightarrow>
     chrName = [] \<and>
       (name = chrShortName ! unat chrNumber \<or> name = chrLongName ! unat chrNumber) \<or>
     chrName \<noteq> [] \<and> name = chrName"

text \<open>
  The directory loop \<open>for (i = 0; i < chrCount && chrOffset == 0; i++)\<close>: it stops at the
  first entry that leaves a nonzero \<open>chrOffset\<close>.
\<close>

function find_chrOffset ::
  "BinaryReader \<Rightarrow> bool \<Rightarrow> string \<Rightarrow> uint8_t \<Rightarrow> string \<Rightarrow> uint32_t \<Rightarrow> uint32_t \<Rightarrow> uint32_t
     \<Rightarrow> error + (uint32_t \<times> BinaryReader)" where
  "find_chrOffset reader swapBytes twobit_filename chrNumber chrName chrCount i chrOffset =
     (if i < chrCount \<and> chrOffset = 0 then
        (case read_uint8 reader of
           Inl e \<Rightarrow> Inl e
         | Inr (None, reader1) \<Rightarrow> Inl (runtime_error (''truncated 2bit file '' @ twobit_filename))
         | Inr (Some nameLength, reader1) \<Rightarrow>
            (case read_buffer reader1 (unat nameLength) of
               Inl e \<Rightarrow> Inl e
             | Inr (None, reader2) \<Rightarrow>
                 Inl (runtime_error (''truncated 2bit file '' @ twobit_filename))
             | Inr (Some nameBuffer, reader2) \<Rightarrow>
                (case read_uint32 reader2 swapBytes of
                   Inl e \<Rightarrow> Inl e
                 | Inr (offset', reader3) \<Rightarrow>
                     let name = map (\<lambda>byte. char_of (unat byte)) nameBuffer in
                     find_chrOffset reader3 swapBytes twobit_filename chrNumber chrName chrCount
                       (i + 1) (if name_matches chrNumber chrName name then offset' else chrOffset))))
      else Inr (chrOffset, reader))"
  by pat_completeness auto
termination
  by (relation "measure (\<lambda>(reader, swapBytes, twobit_filename, chrNumber, chrName, chrCount, i,
          chrOffset). unat chrCount - unat i)")
     (simp, simp, unat_arith)

declare find_chrOffset.simps [simp del]

text \<open>
  The two loops that read the unknown blocks: the starts, made 1-based, then the stops,
  \<open>nstart[i] + length - 1\<close>. The vectors grow by \<open>push_back\<close>.
\<close>

function read_nstart_loop ::
  "BinaryReader \<Rightarrow> bool \<Rightarrow> uint32_t \<Rightarrow> uint32_t \<Rightarrow> uint32_t list
     \<Rightarrow> error + (uint32_t list \<times> BinaryReader)" where
  "read_nstart_loop reader swapBytes nBlockCount i nstart =
     (if i < nBlockCount then
        (case read_uint32 reader swapBytes of
           Inl e \<Rightarrow> Inl e
         | Inr (value, reader') \<Rightarrow>
             read_nstart_loop reader' swapBytes nBlockCount (i + 1) (nstart @ [value + 1]))
      else Inr (nstart, reader))"
  by pat_completeness auto
termination
  by (relation "measure (\<lambda>(reader, swapBytes, nBlockCount, i, nstart). unat nBlockCount - unat i)")
     (simp, simp, unat_arith)

declare read_nstart_loop.simps [simp del]

function read_nstop_loop ::
  "BinaryReader \<Rightarrow> bool \<Rightarrow> uint32_t \<Rightarrow> uint32_t list \<Rightarrow> uint32_t \<Rightarrow> uint32_t list
     \<Rightarrow> error + (uint32_t list \<times> BinaryReader)" where
  "read_nstop_loop reader swapBytes nBlockCount nstart i nstop =
     (if i < nBlockCount then
        (if unat i < length nstart then
           (case read_uint32 reader swapBytes of
              Inl e \<Rightarrow> Inl e
            | Inr (value, reader') \<Rightarrow>
                read_nstop_loop reader' swapBytes nBlockCount nstart (i + 1)
                  (nstop @ [nstart ! unat i + value - 1]))
         else Inl out_of_bounds)
      else Inr (nstop, reader))"
  by pat_completeness auto
termination
  by (relation "measure (\<lambda>(reader, swapBytes, nBlockCount, nstart, i, nstop).
          unat nBlockCount - unat i)")
     (simp, simp, unat_arith)

declare read_nstop_loop.simps [simp del]

definition symbol :: string where
  "symbol = ''TCAG''"

text \<open>
  The decoding loop \<open>for (pos = begin; pos <= end; pos++)\<close>. With \<open>end = 0xFFFFFFFF\<close> the
  test never fails and \<open>pos\<close> wraps around to 0, so the loop is a partial function. A
  write outside the buffer is an error of the model.
\<close>

partial_function (option) decode_loop ::
  "BinaryReader \<Rightarrow> string \<Rightarrow> uint32_t \<Rightarrow> uint32_t \<Rightarrow> uint32_t \<Rightarrow> uint8_t \<Rightarrow> bool \<Rightarrow> string
     \<Rightarrow> (error + string) option" where
  "decode_loop reader twobit_filename begin' end' pos byte readByte sequence =
     (if pos \<le> end' then
        (case (if readByte then read_uint8 reader else Inr (Some byte, reader)) of
           Inl e \<Rightarrow> Some (Inl e)
         | Inr (None, reader') \<Rightarrow>
             Some (Inl (runtime_error (''truncated 2bit file '' @ twobit_filename)))
         | Inr (Some byte', reader') \<Rightarrow>
             let shift = 2 * (3 - ((pos - 1) AND 3));
                 index = (ucast (drop_bit (unat shift) byte') :: uint32_t) AND 3
             in
               if unat (pos - begin') < length sequence then
                 decode_loop reader' twobit_filename begin' end' (pos + 1) byte' (shift = 0)
                   (sequence[unat (pos - begin') := symbol ! unat index])
               else Some (Inl out_of_bounds))
      else Some (Inr sequence))"

declare decode_loop.simps [code]

text \<open>
  The inner loop of the overlay, \<open>for (pos = start; pos <= stop; pos++)\<close>, partial for the
  same reason.
\<close>

partial_function (option) mark_unknown_loop ::
  "uint32_t \<Rightarrow> uint32_t \<Rightarrow> uint32_t \<Rightarrow> string \<Rightarrow> (error + string) option" where
  "mark_unknown_loop begin' pos stop sequence =
     (if pos \<le> stop then
        (if unat (pos - begin') < length sequence then
           mark_unknown_loop begin' (pos + 1) stop (sequence[unat (pos - begin') := CHR ''N''])
         else Some (Inl out_of_bounds))
      else Some (Inr sequence))"

declare mark_unknown_loop.simps [code]

function mark_unknown_blocks ::
  "uint32_t \<Rightarrow> uint32_t \<Rightarrow> uint32_t list \<Rightarrow> uint32_t list \<Rightarrow> uint32_t \<Rightarrow> uint32_t \<Rightarrow> string
     \<Rightarrow> (error + string) option" where
  "mark_unknown_blocks begin' end' nstart nstop nBlockCount i sequence =
     (if i < nBlockCount then
        (if unat i < length nstart \<and> unat i < length nstop then
           (if nstart ! unat i \<le> end' \<and> nstop ! unat i \<ge> begin' then
              (let start = (if nstart ! unat i < begin' then begin' else nstart ! unat i);
                   stop = (if nstop ! unat i > end' then end' else nstop ! unat i)
               in case mark_unknown_loop begin' start stop sequence of
                    None \<Rightarrow> None
                  | Some (Inl e) \<Rightarrow> Some (Inl e)
                  | Some (Inr sequence') \<Rightarrow>
                      mark_unknown_blocks begin' end' nstart nstop nBlockCount (i + 1) sequence')
            else mark_unknown_blocks begin' end' nstart nstop nBlockCount (i + 1) sequence)
         else Some (Inl out_of_bounds))
      else Some (Inr sequence))"
  by pat_completeness auto
termination
  by (relation "measure (\<lambda>(begin', end', nstart, nstop, nBlockCount, i, sequence).
          unat nBlockCount - unat i)")
     (simp, (simp, unat_arith)+)

declare mark_unknown_blocks.simps [simp del]

text \<open>
  The constructor from \<open>// jump to the chromosome header\<close> on. The buffer of
  \<open>new char[end - begin + 1]\<close> is uninitialised in the source; the model fills it with NUL,
  which is none of the five bases.
\<close>

definition extract_window ::
  "BinaryReader \<Rightarrow> bool \<Rightarrow> string \<Rightarrow> uint32_t \<Rightarrow> uint32_t \<Rightarrow> uint32_t
     \<Rightarrow> (error + ReferenceGenome) option" where
  "extract_window reader swapBytes twobit_filename chrOffset beginpos endpos =
     (case seek reader (ucast chrOffset) of
        Inl e \<Rightarrow> Some (Inl e)
      | Inr reader1 \<Rightarrow>
     (case read_uint32 reader1 swapBytes of
        Inl e \<Rightarrow> Some (Inl e)
      | Inr (numBases, reader2) \<Rightarrow>
          let begin' = beginpos;
              end' = (if endpos > numBases then numBases else endpos)
          in
            if begin' = 0 \<or> begin' > end'
            then Some (Inl (runtime_error ''invalid begin position''))
            else
              let sequence = replicate (unat (end' - begin' + 1)) (CHR 0x00) in
     (case read_uint32 reader2 swapBytes of
        Inl e \<Rightarrow> Some (Inl e)
      | Inr (nBlockCount, reader3) \<Rightarrow>
     (case read_nstart_loop reader3 swapBytes nBlockCount 0 [] of
        Inl e \<Rightarrow> Some (Inl e)
      | Inr (nstart, reader4) \<Rightarrow>
     (case read_nstop_loop reader4 swapBytes nBlockCount nstart 0 [] of
        Inl e \<Rightarrow> Some (Inl e)
      | Inr (nstop, reader5) \<Rightarrow>
     (case read_uint32 reader5 swapBytes of
        Inl e \<Rightarrow> Some (Inl e)
      | Inr (maskBlockCount, reader6) \<Rightarrow>
          let dnaOffset = chrOffset + 4 * (2 * nBlockCount + 2 * maskBlockCount + 4) in
     (case seek reader6 (ucast (dnaOffset + drop_bit 2 (begin' - 1))) of
        Inl e \<Rightarrow> Some (Inl e)
      | Inr reader7 \<Rightarrow>
     (case decode_loop reader7 twobit_filename begin' end' begin' 0 True sequence of
        None \<Rightarrow> None
      | Some (Inl e) \<Rightarrow> Some (Inl e)
      | Some (Inr sequence1) \<Rightarrow>
     (case mark_unknown_blocks begin' end' nstart nstop nBlockCount 0 sequence1 of
        None \<Rightarrow> None
      | Some (Inl e) \<Rightarrow> Some (Inl e)
      | Some (Inr sequence2) \<Rightarrow>
          Some (Inr \<lparr>rg_begin = begin', rg_end = end', rg_sequence = sequence2\<rparr>))))))))))"

text \<open>
  The constructor. \<open>fs\<close> maps a file name to the bytes of the file, or to \<open>None\<close> when it
  cannot be opened.
\<close>

definition ReferenceGenome_ctor ::
  "(string \<Rightarrow> uint8_t list option) \<Rightarrow> string \<Rightarrow> uint8_t \<Rightarrow> uint32_t \<Rightarrow> uint32_t \<Rightarrow> string
     \<Rightarrow> (error + ReferenceGenome) option" where
  "ReferenceGenome_ctor fs twobit_filename chrNumber beginpos endpos chrName =
     (if chrName = [] \<and> (chrNumber = 0 \<or> unat chrNumber > NUM_CHROMOSOMES)
      then Some (Inl (runtime_error ''invalid chromosome specification''))
      else
     (case openFile (BinaryReader_new DEFAULT_BUFFER_SIZE) (fs twobit_filename) of
        (False, reader) \<Rightarrow> Some (Inl (runtime_error (''unable to open '' @ twobit_filename)))
      | (True, reader) \<Rightarrow>
     (case BinaryReader_read_uint32 reader of
        Inl e \<Rightarrow> Some (Inl e)
      | Inr (None, reader1) \<Rightarrow>
          Some (Inl (runtime_error (twobit_filename @ '' is not a 2bit file'')))
      | Inr (Some signature, reader1) \<Rightarrow>
          if signature \<noteq> EXPECTED_SIGNATURE \<and> signature \<noteq> swap_uint32 EXPECTED_SIGNATURE
          then Some (Inl (runtime_error (twobit_filename @ '' is not a 2bit file'')))
          else
            let swapBytes = (signature \<noteq> EXPECTED_SIGNATURE) in
     (case read_uint32 reader1 swapBytes of
        Inl e \<Rightarrow> Some (Inl e)
      | Inr (version, reader2) \<Rightarrow>
     (case read_uint32 reader2 swapBytes of
        Inl e \<Rightarrow> Some (Inl e)
      | Inr (chrCount, reader3) \<Rightarrow>
     (case read_uint32 reader3 swapBytes of
        Inl e \<Rightarrow> Some (Inl e)
      | Inr (reserved, reader4) \<Rightarrow>
     (case find_chrOffset reader4 swapBytes twobit_filename chrNumber chrName chrCount 0 0 of
        Inl e \<Rightarrow> Some (Inl e)
      | Inr (chrOffset, reader5) \<Rightarrow>
          if chrOffset = 0
          then Some (Inl (runtime_error
                 (''chromosome '' @ (if chrName = [] then chrShortName ! unat chrNumber else chrName)
                    @ '' not found in '' @ twobit_filename)))
          else extract_window reader5 swapBytes twobit_filename chrOffset beginpos endpos)))))))"

section \<open>The byte stream a reader still has to deliver\<close>

text \<open>
  What a reader returns next is the unread rest of its buffer followed by the rest of
  the file behind the kernel's read position. The constructor's reader is open on the
  bytes of the 2bit file and has a buffer of positive size.
\<close>

definition unread :: "BinaryReader \<Rightarrow> uint8_t list" where
  "unread reader =
     drop (offset reader) (buf reader) @
     (case fd reader of None \<Rightarrow> [] | Some d \<Rightarrow> drop (fd_pos d) (fd_contents d))"

definition reader_ok :: "uint8_t list \<Rightarrow> nat \<Rightarrow> BinaryReader \<Rightarrow> bool" where
  "reader_ok fbytes sz reader \<longleftrightarrow>
     (\<exists>d. fd reader = Some d \<and> fd_contents d = fbytes) \<and> bufsize reader = sz \<and> 0 < sz"

text \<open>
  The value the file-local \<open>read_uint32\<close> returns for four stored bytes, and the bytes of
  one directory entry: the length byte, the name and the four bytes of the offset.
\<close>

definition stored_uint32 :: "bool \<Rightarrow> uint8_t list \<Rightarrow> uint32_t" where
  "stored_uint32 swapBytes bytes =
     (if swapBytes then swap_uint32 (uint32_of_bytes bytes) else uint32_of_bytes bytes)"

definition entry_name :: "uint8_t list \<times> uint8_t list \<Rightarrow> string" where
  "entry_name entry = map (\<lambda>byte. char_of (unat byte)) (fst entry)"

definition entry_bytes :: "uint8_t list \<times> uint8_t list \<Rightarrow> uint8_t list" where
  "entry_bytes entry = of_nat (length (fst entry)) # fst entry @ snd entry"

section \<open>Member functions of the window\<close>

definition getBase :: "ReferenceGenome \<Rightarrow> uint32_t \<Rightarrow> error + char" where
  "getBase rg pos =
     (if pos < rg_begin rg \<or> pos > rg_end rg then Inr (CHR ''N'')
      else if unat (pos - rg_begin rg) < length (rg_sequence rg)
      then Inr (rg_sequence rg ! unat (pos - rg_begin rg))
      else Inl out_of_bounds)"

text \<open>
  \<open>std::string::operator[]\<close>: an index below the size reads the character, the index
  equal to the size reads the terminating NUL, anything beyond is outside the string.
\<close>

definition string_at :: "string \<Rightarrow> uint32_t \<Rightarrow> error + char" where
  "string_at s i =
     (if unat i < length s then Inr (s ! unat i)
      else if unat i = length s then Inr (CHR 0x00)
      else Inl out_of_bounds)"

section \<open>The indel equivalence checker\<close>




text \<open>
  The first loop of the case \<open>m < n\<close> and the loop of the case \<open>m == n\<close> have the same
  body, \<open>v[vindex] != w[windex] || v[vindex] != getBase(sindex)\<close>, and differ in their
  bound and start values only. The disjunction is short-circuit: the reference is read
  only when the two alleles agree.
\<close>

function ins_match_loop ::
  "ReferenceGenome \<Rightarrow> string \<Rightarrow> string \<Rightarrow> uint32_t \<Rightarrow> uint32_t \<Rightarrow> uint32_t \<Rightarrow> uint32_t
     \<Rightarrow> error + bool" where
  "ins_match_loop rg v w bound vindex windex sindex =
     (if vindex < bound then
        (case string_at v vindex of
           Inl e \<Rightarrow> Inl e
         | Inr a \<Rightarrow>
            (case string_at w windex of
               Inl e \<Rightarrow> Inl e
             | Inr b \<Rightarrow>
                if a \<noteq> b then Inr False
                else (case getBase rg sindex of
                        Inl e \<Rightarrow> Inl e
                      | Inr c \<Rightarrow>
                         if a \<noteq> c then Inr False
                         else ins_match_loop rg v w bound (vindex + 1) (windex + 1) (sindex + 1))))
      else Inr True)"
  by pat_completeness auto
termination
  by (relation "measure (\<lambda>(rg, v, w, bound, vindex, windex, sindex). unat bound - unat vindex)")
     (simp, simp, unat_arith)

declare ins_match_loop.simps [simp del]

text \<open>The second loop of the case \<open>m < n\<close>: \<open>v[vindex] != w[windex]\<close>.\<close>

function ins_rotate_loop ::
  "string \<Rightarrow> string \<Rightarrow> uint32_t \<Rightarrow> uint32_t \<Rightarrow> uint32_t \<Rightarrow> error + bool" where
  "ins_rotate_loop v w n vindex windex =
     (if vindex < n then
        (case string_at v vindex of
           Inl e \<Rightarrow> Inl e
         | Inr a \<Rightarrow>
            (case string_at w windex of
               Inl e \<Rightarrow> Inl e
             | Inr b \<Rightarrow>
                if a \<noteq> b then Inr False
                else ins_rotate_loop v w n (vindex + 1) (windex + 1)))
      else Inr True)"
  by pat_completeness auto
termination
  by (relation "measure (\<lambda>(v, w, n, vindex, windex). unat n - unat vindex)")
     (simp, simp, unat_arith)

declare ins_rotate_loop.simps [simp del]

text \<open>
  The first two loops of the case \<open>m > n\<close> compare one allele with the reference:
  \<open>v[vindex] != getBase(sindex)\<close>, then the same for \<open>w\<close>.
\<close>

function ins_ref_loop ::
  "ReferenceGenome \<Rightarrow> string \<Rightarrow> uint32_t \<Rightarrow> uint32_t \<Rightarrow> uint32_t \<Rightarrow> error + bool" where
  "ins_ref_loop rg s n index sindex =
     (if index < n then
        (case string_at s index of
           Inl e \<Rightarrow> Inl e
         | Inr a \<Rightarrow>
            (case getBase rg sindex of
               Inl e \<Rightarrow> Inl e
             | Inr c \<Rightarrow>
                if a \<noteq> c then Inr False
                else ins_ref_loop rg s n (index + 1) (sindex + 1)))
      else Inr True)"
  by pat_completeness auto
termination
  by (relation "measure (\<lambda>(rg, s, n, index, sindex). unat n - unat index)")
     (simp, simp, unat_arith)

declare ins_ref_loop.simps [simp del]

text \<open>
  The last loop of the case \<open>m > n\<close> runs while \<open>sindex <= last\<close>. With
  \<open>last = 0xFFFFFFFF\<close> the test never fails and the counter wraps around, so the loop
  is a partial function: \<open>None\<close> is the run that does not return.
\<close>

partial_function (option) ins_period_loop ::
  "ReferenceGenome \<Rightarrow> uint32_t \<Rightarrow> uint32_t \<Rightarrow> uint32_t \<Rightarrow> (error + bool) option" where
  "ins_period_loop rg n last' sindex =
     (if sindex \<le> last' then
        (case getBase rg sindex of
           Inl e \<Rightarrow> Some (Inl e)
         | Inr a \<Rightarrow>
            (case getBase rg (sindex + n) of
               Inl e \<Rightarrow> Some (Inl e)
             | Inr b \<Rightarrow>
                if a \<noteq> b then Some (Inr False)
                else ins_period_loop rg n last' (sindex + 1)))
      else Some (Inr True))"

declare ins_period_loop.simps [code]

definition equivalentInsertions ::
  "ReferenceGenome \<Rightarrow> uint32_t \<Rightarrow> string \<Rightarrow> uint32_t \<Rightarrow> string \<Rightarrow> (error + bool) option" where
  "equivalentInsertions rg pos1 seq1 pos2 seq2 =
     (if length seq1 \<noteq> length seq2 then Some (Inr False)
      else if pos1 = pos2 then Some (Inr (seq1 = seq2))
      else
        let j = (if pos1 < pos2 then pos1 - 1 else pos2 - 1);
            k = (if pos1 < pos2 then pos2 - 1 else pos1 - 1);
            v = (if pos1 < pos2 then seq1 else seq2);
            w = (if pos1 < pos2 then seq2 else seq1);
            m = k - j;
            n = (of_nat (length seq1) :: uint32_t)
        in
          if m < n then
            (case ins_match_loop rg v w m 0 (n - m) (j + 1) of
               Inl e \<Rightarrow> Some (Inl e)
             | Inr False \<Rightarrow> Some (Inr False)
             | Inr True \<Rightarrow>
                (case ins_rotate_loop v w n m 0 of
                   Inl e \<Rightarrow> Some (Inl e)
                 | Inr False \<Rightarrow> Some (Inr False)
                 | Inr True \<Rightarrow> Some (Inr True)))
          else if m = n then
            (case ins_match_loop rg v w n 0 0 (j + 1) of
               Inl e \<Rightarrow> Some (Inl e)
             | Inr False \<Rightarrow> Some (Inr False)
             | Inr True \<Rightarrow> Some (Inr True))
          else
            (case ins_ref_loop rg v n 0 (j + 1) of
               Inl e \<Rightarrow> Some (Inl e)
             | Inr False \<Rightarrow> Some (Inr False)
             | Inr True \<Rightarrow>
                (case ins_ref_loop rg w n 0 (k - n + 1) of
                   Inl e \<Rightarrow> Some (Inl e)
                 | Inr False \<Rightarrow> Some (Inr False)
                 | Inr True \<Rightarrow> ins_period_loop rg n (k - n) (j + 1))))"

text \<open>The loop of \<open>equivalentDeletions\<close>: \<open>getBase(sindex) != getBase(sindex + n)\<close>.\<close>

function del_period_loop ::
  "ReferenceGenome \<Rightarrow> uint32_t \<Rightarrow> uint32_t \<Rightarrow> uint32_t \<Rightarrow> error + bool" where
  "del_period_loop rg n k sindex =
     (if sindex < k then
        (case getBase rg sindex of
           Inl e \<Rightarrow> Inl e
         | Inr a \<Rightarrow>
            (case getBase rg (sindex + n) of
               Inl e \<Rightarrow> Inl e
             | Inr b \<Rightarrow>
                if a \<noteq> b then Inr False
                else del_period_loop rg n k (sindex + 1)))
      else Inr True)"
  by pat_completeness auto
termination
  by (relation "measure (\<lambda>(rg, n, k, sindex). unat k - unat sindex)")
     (simp, simp, unat_arith)

declare del_period_loop.simps [simp del]

definition equivalentDeletions ::
  "ReferenceGenome \<Rightarrow> uint32_t \<Rightarrow> string \<Rightarrow> uint32_t \<Rightarrow> string \<Rightarrow> error + bool" where
  "equivalentDeletions rg pos1 seq1 pos2 seq2 =
     (if length seq1 \<noteq> length seq2 then Inr False
      else if pos1 = pos2 then Inr (seq1 = seq2)
      else
        let j = (if pos1 < pos2 then pos1 else pos2);
            k = (if pos1 < pos2 then pos2 else pos1);
            n = (of_nat (length seq1) :: uint32_t)
        in del_period_loop rg n k j)"

text \<open>
  The invariant the constructor establishes and every member function relies on:
  \<open>begin\<close> is at least 1 and at most \<open>end\<close>, and the buffer holds
  \<open>end - begin + 1\<close> characters.
\<close>

definition window_ok :: "ReferenceGenome \<Rightarrow> bool" where
  "window_ok rg \<longleftrightarrow>
     1 \<le> rg_begin rg \<and> rg_begin rg \<le> rg_end rg \<and>
     length (rg_sequence rg) = unat (rg_end rg - rg_begin rg + 1)"

section \<open>Two synthetic 2bit files\<close>

text \<open>
  \<open>example_2bit\<close> has the one chromosome \<open>chr1\<close>, of four bases, at byte offset 25; its
  packed byte \<open>0x93\<close> holds the codes 2, 1, 0, 3. \<open>zero_offset_2bit\<close> lists \<open>chr1\<close> with
  the stored offset 0 and then \<open>1\<close> with the offset 31 of the record that follows.
\<close>

definition example_2bit :: "uint8_t list" where
  "example_2bit =
     [0x1A, 0x41, 0x27, 0x43,  0, 0, 0, 0,  0, 0, 0, 1,  0, 0, 0, 0,
      4, 0x63, 0x68, 0x72, 0x31,  0, 0, 0, 25,
      0, 0, 0, 4,  0, 0, 0, 0,  0, 0, 0, 0,  0, 0, 0, 0,
      0x93]"

definition example_fs :: "string \<Rightarrow> uint8_t list option" where
  "example_fs name = (if name = ''example.2bit'' then Some example_2bit else None)"

definition zero_offset_2bit :: "uint8_t list" where
  "zero_offset_2bit =
     [0x1A, 0x41, 0x27, 0x43,  0, 0, 0, 0,  0, 0, 0, 2,  0, 0, 0, 0,
      4, 0x63, 0x68, 0x72, 0x31,  0, 0, 0, 0,
      1, 0x31,  0, 0, 0, 31,
      0, 0, 0, 4,  0, 0, 0, 0,  0, 0, 0, 0,  0, 0, 0, 0,
      0x93]"

definition zero_offset_fs :: "string \<Rightarrow> uint8_t list option" where
  "zero_offset_fs name = (if name = ''zero.2bit'' then Some zero_offset_2bit else None)"

section \<open>Properties of the checker loops\<close>

lemma word_le_step: "(s::32 word) < k \<Longrightarrow> s \<le> t \<longleftrightarrow> t = s \<or> s + 1 \<le> t"
  by unat_arith

lemma getBase_total:
  assumes "window_ok rg"
  shows "\<exists>c. getBase rg pos = Inr c"
proof -
  have "unat (pos - rg_begin rg) < length (rg_sequence rg)"
    if "rg_begin rg \<le> pos" "pos \<le> rg_end rg"
    using that assms unfolding window_ok_def by unat_arith
  then show ?thesis
    by (auto simp: getBase_def not_less)
qed

lemma del_period_loop_spec:
  "window_ok rg \<Longrightarrow>
   del_period_loop rg n k s =
     Inr (\<forall>t. s \<le> t \<and> t < k \<longrightarrow> getBase rg t = getBase rg (t + n))"
proof (induction rg n k s rule: del_period_loop.induct)
  case (1 rg n k s)
  obtain a b where a: "getBase rg s = Inr a" and b: "getBase rg (s + n) = Inr b"
    using getBase_total [OF "1.prems"] by blast
  show ?case
  proof (cases "s < k")
    case False
    then have "\<forall>t. \<not> (s \<le> t \<and> t < k)" by auto
    with False show ?thesis by (subst del_period_loop.simps) auto
  next
    case True
    show ?thesis
    proof (cases "a = b")
      case False
      with True a b have "del_period_loop rg n k s = Inr False"
        by (subst del_period_loop.simps) simp
      moreover have "\<not> (\<forall>t. s \<le> t \<and> t < k \<longrightarrow> getBase rg t = getBase rg (t + n))"
        using True False a b by auto
      ultimately show ?thesis by simp
    next
      case same: True
      have "del_period_loop rg n k s = del_period_loop rg n k (s + 1)"
        using True same a b by (subst del_period_loop.simps) simp
      also have "\<dots> = Inr (\<forall>t. s + 1 \<le> t \<and> t < k \<longrightarrow> getBase rg t = getBase rg (t + n))"
        using "1.IH" [OF True a b] same "1.prems" by simp
      also have "(\<forall>t. s + 1 \<le> t \<and> t < k \<longrightarrow> getBase rg t = getBase rg (t + n)) \<longleftrightarrow>
                 (\<forall>t. s \<le> t \<and> t < k \<longrightarrow> getBase rg t = getBase rg (t + n))"
        using word_le_step [OF True] a b same by auto
      finally show ?thesis .
    qed
  qed
qed

lemma string_at_in: "unat i < length s \<Longrightarrow> string_at s i = Inr (s ! unat i)"
  by (simp add: string_at_def)

lemma ins_match_loop_spec:
  "window_ok rg \<Longrightarrow> unat bound \<le> length v \<Longrightarrow>
   unat windex + (unat bound - unat vindex) \<le> unat (wn :: uint32_t) \<Longrightarrow>
   unat wn \<le> length w \<Longrightarrow>
   ins_match_loop rg v w bound vindex windex sindex =
     Inr (\<forall>d < unat bound - unat vindex.
            v ! (unat vindex + d) = w ! (unat windex + d) \<and>
            getBase rg (sindex + of_nat d) = Inr (v ! (unat vindex + d)))"
proof (induction rg v w bound vindex windex sindex rule: ins_match_loop.induct)
  case (1 rg v w bound vindex windex sindex)
  show ?case
  proof (cases "vindex < bound")
    case False
    then have "unat bound - unat vindex = 0" by unat_arith
    with False show ?thesis by (subst ins_match_loop.simps) simp
  next
    case True
    define k' where "k' = unat bound - unat (vindex + 1)"
    have vi: "unat (vindex + 1) = Suc (unat vindex)"
      using True by unat_arith
    have k: "unat bound - unat vindex = Suc k'"
      using True vi unfolding k'_def by unat_arith
    have wlt: "unat windex < unat wn"
      using "1.prems"(3) k by simp
    then have "windex < wn" by (simp add: word_less_nat_alt)
    then have wi: "unat (windex + 1) = Suc (unat windex)"
      by unat_arith
    have sv: "string_at v vindex = Inr (v ! unat vindex)"
      using "1.prems"(2) k by (intro string_at_in) simp
    have sw: "string_at w windex = Inr (w ! unat windex)"
      using "1.prems"(4) wlt by (intro string_at_in) simp
    obtain c where c: "getBase rg sindex = Inr c"
      using getBase_total [OF "1.prems"(1)] by blast
    show ?thesis
    proof (cases "v ! unat vindex = w ! unat windex \<and> v ! unat vindex = c")
      case False
      then have "ins_match_loop rg v w bound vindex windex sindex = Inr False"
        using True sv sw c by (subst ins_match_loop.simps) auto
      moreover have "\<not> (\<forall>d < Suc k'.
            v ! (unat vindex + d) = w ! (unat windex + d) \<and>
            getBase rg (sindex + of_nat d) = Inr (v ! (unat vindex + d)))"
      proof
        assume "\<forall>d < Suc k'.
            v ! (unat vindex + d) = w ! (unat windex + d) \<and>
            getBase rg (sindex + of_nat d) = Inr (v ! (unat vindex + d))"
        from this [rule_format, of 0] False c show False by simp
      qed
      ultimately show ?thesis
        unfolding k by simp
    next
      case ok: True
      have "ins_match_loop rg v w bound vindex windex sindex =
            ins_match_loop rg v w bound (vindex + 1) (windex + 1) (sindex + 1)"
        using True sv sw c ok by (subst ins_match_loop.simps) auto
      also have "\<dots> = Inr (\<forall>d < k'.
            v ! (unat (vindex + 1) + d) = w ! (unat (windex + 1) + d) \<and>
            getBase rg (sindex + 1 + of_nat d) = Inr (v ! (unat (vindex + 1) + d)))"
        unfolding k'_def
      proof (rule "1.IH" [OF True sv sw _ c _ "1.prems"(1,2) _ "1.prems"(4)])
        show "\<not> v ! unat vindex \<noteq> w ! unat windex" using ok by simp
        show "\<not> v ! unat vindex \<noteq> c" using ok by auto
        show "unat (windex + 1) + (unat bound - unat (vindex + 1)) \<le> unat wn"
          using "1.prems"(3) k wi vi by simp
      qed
      also have "(\<forall>d < k'.
            v ! (unat (vindex + 1) + d) = w ! (unat (windex + 1) + d) \<and>
            getBase rg (sindex + 1 + of_nat d) = Inr (v ! (unat (vindex + 1) + d))) \<longleftrightarrow>
          (\<forall>d < Suc k'.
            v ! (unat vindex + d) = w ! (unat windex + d) \<and>
            getBase rg (sindex + of_nat d) = Inr (v ! (unat vindex + d)))"
        using ok c by (auto simp add: All_less_Suc2 vi wi add.assoc)
      finally show ?thesis unfolding k .
    qed
  qed
qed

lemma ins_rotate_loop_spec:
  "unat n \<le> length v \<Longrightarrow>
   unat windex + (unat n - unat vindex) \<le> unat (wn :: uint32_t) \<Longrightarrow>
   unat wn \<le> length w \<Longrightarrow>
   ins_rotate_loop v w n vindex windex =
     Inr (\<forall>d < unat n - unat vindex. v ! (unat vindex + d) = w ! (unat windex + d))"
proof (induction v w n vindex windex rule: ins_rotate_loop.induct)
  case (1 v w n vindex windex)
  show ?case
  proof (cases "vindex < n")
    case False
    then have "unat n - unat vindex = 0" by unat_arith
    with False show ?thesis by (subst ins_rotate_loop.simps) simp
  next
    case True
    define k' where "k' = unat n - unat (vindex + 1)"
    have vi: "unat (vindex + 1) = Suc (unat vindex)"
      using True by unat_arith
    have k: "unat n - unat vindex = Suc k'"
      using True vi unfolding k'_def by unat_arith
    have wlt: "unat windex < unat wn"
      using "1.prems"(2) k by simp
    then have "windex < wn" by (simp add: word_less_nat_alt)
    then have wi: "unat (windex + 1) = Suc (unat windex)"
      by unat_arith
    have sv: "string_at v vindex = Inr (v ! unat vindex)"
      using "1.prems"(1) k by (intro string_at_in) simp
    have sw: "string_at w windex = Inr (w ! unat windex)"
      using "1.prems"(3) wlt by (intro string_at_in) simp
    show ?thesis
    proof (cases "v ! unat vindex = w ! unat windex")
      case False
      then have "ins_rotate_loop v w n vindex windex = Inr False"
        using True sv sw by (subst ins_rotate_loop.simps) auto
      moreover have "\<not> (\<forall>d < Suc k'. v ! (unat vindex + d) = w ! (unat windex + d))"
      proof
        assume "\<forall>d < Suc k'. v ! (unat vindex + d) = w ! (unat windex + d)"
        from this [rule_format, of 0] False show False by simp
      qed
      ultimately show ?thesis
        unfolding k by simp
    next
      case ok: True
      have "ins_rotate_loop v w n vindex windex = ins_rotate_loop v w n (vindex + 1) (windex + 1)"
        using True sv sw ok by (subst ins_rotate_loop.simps) auto
      also have "\<dots> = Inr (\<forall>d < k'. v ! (unat (vindex + 1) + d) = w ! (unat (windex + 1) + d))"
        unfolding k'_def
      proof (rule "1.IH" [OF True sv sw _ "1.prems"(1) _ "1.prems"(3)])
        show "\<not> v ! unat vindex \<noteq> w ! unat windex" using ok by simp
        show "unat (windex + 1) + (unat n - unat (vindex + 1)) \<le> unat wn"
          using "1.prems"(2) k wi vi by simp
      qed
      also have "(\<forall>d < k'. v ! (unat (vindex + 1) + d) = w ! (unat (windex + 1) + d)) \<longleftrightarrow>
          (\<forall>d < Suc k'. v ! (unat vindex + d) = w ! (unat windex + d))"
        using ok by (auto simp add: All_less_Suc2 vi wi)
      finally show ?thesis unfolding k .
    qed
  qed
qed

lemma ins_ref_loop_spec:
  "window_ok rg \<Longrightarrow> unat n \<le> length s \<Longrightarrow>
   ins_ref_loop rg s n index sindex =
     Inr (\<forall>d < unat n - unat index.
            getBase rg (sindex + of_nat d) = Inr (s ! (unat index + d)))"
proof (induction rg s n index sindex rule: ins_ref_loop.induct)
  case (1 rg s n index sindex)
  show ?case
  proof (cases "index < n")
    case False
    then have "unat n - unat index = 0" by unat_arith
    with False show ?thesis by (subst ins_ref_loop.simps) simp
  next
    case True
    define k' where "k' = unat n - unat (index + 1)"
    have vi: "unat (index + 1) = Suc (unat index)"
      using True by unat_arith
    have k: "unat n - unat index = Suc k'"
      using True vi unfolding k'_def by unat_arith
    have sv: "string_at s index = Inr (s ! unat index)"
      using "1.prems"(2) k by (intro string_at_in) simp
    obtain c where c: "getBase rg sindex = Inr c"
      using getBase_total [OF "1.prems"(1)] by blast
    show ?thesis
    proof (cases "s ! unat index = c")
      case False
      then have "ins_ref_loop rg s n index sindex = Inr False"
        using True sv c by (subst ins_ref_loop.simps) auto
      moreover have "\<not> (\<forall>d < Suc k'.
            getBase rg (sindex + of_nat d) = Inr (s ! (unat index + d)))"
      proof
        assume "\<forall>d < Suc k'. getBase rg (sindex + of_nat d) = Inr (s ! (unat index + d))"
        from this [rule_format, of 0] False c show False by simp
      qed
      ultimately show ?thesis
        unfolding k by simp
    next
      case ok: True
      have "ins_ref_loop rg s n index sindex = ins_ref_loop rg s n (index + 1) (sindex + 1)"
        using True sv c ok by (subst ins_ref_loop.simps) auto
      also have "\<dots> = Inr (\<forall>d < k'.
            getBase rg (sindex + 1 + of_nat d) = Inr (s ! (unat (index + 1) + d)))"
        unfolding k'_def
      proof (rule "1.IH" [OF True sv c _ "1.prems"])
        show "\<not> s ! unat index \<noteq> c" using ok by simp
      qed
      also have "(\<forall>d < k'.
            getBase rg (sindex + 1 + of_nat d) = Inr (s ! (unat (index + 1) + d))) \<longleftrightarrow>
          (\<forall>d < Suc k'. getBase rg (sindex + of_nat d) = Inr (s ! (unat index + d)))"
        using ok c by (auto simp add: All_less_Suc2 vi add.assoc)
      finally show ?thesis unfolding k .
    qed
  qed
qed


lemma word_Suc_unat: "(i::32 word) < n \<Longrightarrow> unat (i + 1) = Suc (unat i)"
  by unat_arith

lemma ins_period_loop_spec:
  assumes "window_ok rg" and "last' \<noteq> - 1"
  shows "ins_period_loop rg n last' s =
     Some (Inr (\<forall>t. s \<le> t \<and> t \<le> last' \<longrightarrow> getBase rg t = getBase rg (t + n)))"
proof (induction "Suc (unat last') - unat s" arbitrary: s)
  case 0
  then have gt: "\<not> s \<le> last'" by (simp add: word_le_nat_alt)
  then have "\<forall>t. \<not> (s \<le> t \<and> t \<le> last')" by auto
  with gt show ?case by (subst ins_period_loop.simps) auto
next
  case (Suc m)
  then have le: "s \<le> last'" by (simp add: word_le_nat_alt)
  have "last' < - 1" using assms(2) by (simp add: word_order.not_eq_extremum)
  with le have lt: "s < - 1" by simp
  have si: "unat (s + 1) = Suc (unat s)"
    using lt by (rule word_Suc_unat)
  obtain a b where a: "getBase rg s = Inr a" and b: "getBase rg (s + n) = Inr b"
    using getBase_total [OF assms(1)] by blast
  show ?case
  proof (cases "a = b")
    case False
    with le a b have "ins_period_loop rg n last' s = Some (Inr False)"
      by (subst ins_period_loop.simps) simp
    moreover have "\<not> (\<forall>t. s \<le> t \<and> t \<le> last' \<longrightarrow> getBase rg t = getBase rg (t + n))"
      using le False a b by auto
    ultimately show ?thesis by simp
  next
    case same: True
    have "ins_period_loop rg n last' s = ins_period_loop rg n last' (s + 1)"
      using le same a b by (subst ins_period_loop.simps) simp
    also have "\<dots> = Some (Inr (\<forall>t. s + 1 \<le> t \<and> t \<le> last' \<longrightarrow> getBase rg t = getBase rg (t + n)))"
      using Suc.hyps(2) si by (intro Suc.hyps(1)) simp
    also have "(\<forall>t. s + 1 \<le> t \<and> t \<le> last' \<longrightarrow> getBase rg t = getBase rg (t + n)) \<longleftrightarrow>
               (\<forall>t. s \<le> t \<and> t \<le> last' \<longrightarrow> getBase rg t = getBase rg (t + n))"
      using word_le_step [OF lt] a b same by auto
    finally show ?thesis .
  qed
qed

lemma unat_of_nat_length_le: "unat (of_nat (length (s::'a list)) :: uint32_t) \<le> length s"
  by (simp add: unat_of_nat)

lemma last_not_max:
  assumes "(pos1::uint32_t) < pos2" and "n < pos2 - pos1"
  shows "pos2 - 1 - n \<noteq> - 1"
proof
  assume "pos2 - 1 - n = - 1"
  then have "pos2 - n = 0" by simp
  then have "pos2 = n" by simp
  moreover have "unat (pos2 - pos1) = unat pos2 - unat pos1"
    using assms(1) by (simp add: unat_sub)
  ultimately show False
    using assms(2) by (simp add: word_less_nat_alt)
qed

lemma equivalentInsertions_lt:
  assumes ok: "window_ok rg" and lt: "pos1 < pos2" and len: "length seq1 = length seq2"
  defines "n \<equiv> (of_nat (length seq1) :: uint32_t)" and "m \<equiv> pos2 - pos1"
  shows "equivalentInsertions rg pos1 seq1 pos2 seq2 = Some (Inr (
     if m < n then
       (\<forall>d < unat m. seq1 ! d = seq2 ! (unat (n - m) + d) \<and>
                      getBase rg (pos1 + of_nat d) = Inr (seq1 ! d)) \<and>
       (\<forall>d < unat n - unat m. seq1 ! (unat m + d) = seq2 ! d)
     else if m = n then
       (\<forall>d < unat n. seq1 ! d = seq2 ! d \<and> getBase rg (pos1 + of_nat d) = Inr (seq1 ! d))
     else
       (\<forall>d < unat n. getBase rg (pos1 + of_nat d) = Inr (seq1 ! d)) \<and>
       (\<forall>d < unat n. getBase rg (pos2 - n + of_nat d) = Inr (seq2 ! d)) \<and>
       (\<forall>t. pos1 \<le> t \<and> t \<le> pos2 - 1 - n \<longrightarrow> getBase rg t = getBase rg (t + n))))"
proof -
  have n1: "unat n \<le> length seq1" and n2: "unat n \<le> length seq2"
    using unat_of_nat_length_le [of seq1] len by (simp_all add: n_def)
  have ne: "pos1 \<noteq> pos2" using lt by auto
  have unf: "equivalentInsertions rg pos1 seq1 pos2 seq2 =
      (if m < n then
            (case ins_match_loop rg seq1 seq2 m 0 (n - m) pos1 of
               Inl e \<Rightarrow> Some (Inl e)
             | Inr False \<Rightarrow> Some (Inr False)
             | Inr True \<Rightarrow>
                (case ins_rotate_loop seq1 seq2 n m 0 of
                   Inl e \<Rightarrow> Some (Inl e)
                 | Inr False \<Rightarrow> Some (Inr False)
                 | Inr True \<Rightarrow> Some (Inr True)))
          else if m = n then
            (case ins_match_loop rg seq1 seq2 n 0 0 pos1 of
               Inl e \<Rightarrow> Some (Inl e)
             | Inr False \<Rightarrow> Some (Inr False)
             | Inr True \<Rightarrow> Some (Inr True))
          else
            (case ins_ref_loop rg seq1 n 0 pos1 of
               Inl e \<Rightarrow> Some (Inl e)
             | Inr False \<Rightarrow> Some (Inr False)
             | Inr True \<Rightarrow>
                (case ins_ref_loop rg seq2 n 0 (pos2 - n) of
                   Inl e \<Rightarrow> Some (Inl e)
                 | Inr False \<Rightarrow> Some (Inr False)
                 | Inr True \<Rightarrow> ins_period_loop rg n (pos2 - 1 - n) pos1)))"
    unfolding equivalentInsertions_def Let_def n_def m_def
    using lt ne len by (simp cong: sum.case_cong bool.case_cong)
  show ?thesis
  proof (cases "m < n")
    case True
    then have sub: "unat (n - m) = unat n - unat m"
      by (simp add: unat_sub word_less_nat_alt word_le_nat_alt)
    have mle: "unat m \<le> unat n" using True by (simp add: word_less_nat_alt)
    have A: "ins_match_loop rg seq1 seq2 m 0 (n - m) pos1 =
        Inr (\<forall>d < unat m. seq1 ! d = seq2 ! (unat (n - m) + d) \<and>
                      getBase rg (pos1 + of_nat d) = Inr (seq1 ! d))"
      using ins_match_loop_spec [of rg m seq1 "n - m" 0 n seq2 pos1] ok n1 n2 mle sub
      by simp
    have B: "ins_rotate_loop seq1 seq2 n m 0 =
        Inr (\<forall>d < unat n - unat m. seq1 ! (unat m + d) = seq2 ! d)"
      using ins_rotate_loop_spec [of n seq1 0 m n seq2] n1 n2 by simp
    show ?thesis
      unfolding unf A B using True by (simp split: bool.splits)
  next
    case False
    show ?thesis
    proof (cases "m = n")
      case True
      have C: "ins_match_loop rg seq1 seq2 n 0 0 pos1 =
        Inr (\<forall>d < unat n. seq1 ! d = seq2 ! d \<and> getBase rg (pos1 + of_nat d) = Inr (seq1 ! d))"
        using ins_match_loop_spec [of rg n seq1 0 0 n seq2 pos1] ok n1 n2 by simp
      show ?thesis
        unfolding unf C using True by (simp split: bool.splits)
    next
      case ne': False
      with False have gt: "n < m" by auto
      have D: "ins_ref_loop rg seq1 n 0 pos1 =
          Inr (\<forall>d < unat n. getBase rg (pos1 + of_nat d) = Inr (seq1 ! d))"
        using ins_ref_loop_spec [of rg n seq1 0 pos1] ok n1 by simp
      have E: "ins_ref_loop rg seq2 n 0 (pos2 - n) =
          Inr (\<forall>d < unat n. getBase rg (pos2 - n + of_nat d) = Inr (seq2 ! d))"
        using ins_ref_loop_spec [of rg n seq2 0 "pos2 - n"] ok n2 by simp
      have "pos2 - 1 - n \<noteq> - 1"
        using lt gt unfolding m_def by (rule last_not_max)
      then have F: "ins_period_loop rg n (pos2 - 1 - n) pos1 =
          Some (Inr (\<forall>t. pos1 \<le> t \<and> t \<le> pos2 - 1 - n \<longrightarrow> getBase rg t = getBase rg (t + n)))"
        using ins_period_loop_spec [OF ok] by simp
      show ?thesis
        unfolding unf D E F using False ne' by (simp split: bool.splits)
    qed
  qed
qed

section \<open>Helper facts for the claims\<close>

lemma equivalentInsertions_sym:
  "equivalentInsertions rg pos1 seq1 pos2 seq2 = equivalentInsertions rg pos2 seq2 pos1 seq1"
  by (cases pos1 pos2 rule: linorder_cases) (auto simp: equivalentInsertions_def Let_def)

lemma equivalentDeletions_sym:
  "equivalentDeletions rg pos1 seq1 pos2 seq2 = equivalentDeletions rg pos2 seq2 pos1 seq1"
  by (cases pos1 pos2 rule: linorder_cases) (auto simp: equivalentDeletions_def Let_def)

lemma unat_of_nat_length: "length (s::'a list) < 2 ^ 32 \<Longrightarrow> unat (of_nat (length s) :: uint32_t) = length s"
  by (simp add: unat_of_nat)

lemma all_shift: "(\<forall>d < n - m. P (m + d) d) \<longleftrightarrow> (\<forall>i::nat. m \<le> i \<and> i < n \<longrightarrow> P i (i - m))"
proof
  assume l: "\<forall>d < n - m. P (m + d) d"
  show "\<forall>i. m \<le> i \<and> i < n \<longrightarrow> P i (i - m)"
  proof (intro allI impI)
    fix i assume "m \<le> i \<and> i < n"
    then have "i - m < n - m" "m + (i - m) = i" by auto
    with l [rule_format, of "i - m"] show "P i (i - m)" by simp
  qed
next
  assume r: "\<forall>i. m \<le> i \<and> i < n \<longrightarrow> P i (i - m)"
  show "\<forall>d < n - m. P (m + d) d"
  proof (intro allI impI)
    fix d assume "d < n - m"
    then have "m \<le> m + d \<and> m + d < n" by auto
    with r [rule_format, of "m + d"] show "P (m + d) d" by simp
  qed
qed

lemma ins_gap_eq_ordered:
  assumes "window_ok rg" and "pos1 < pos2" and "length seq1 = length seq2"
    and "length seq1 < 2 ^ 32" and "pos2 - pos1 = of_nat (length seq1)"
  shows "equivalentInsertions rg pos1 seq1 pos2 seq2 =
    Some (Inr (\<forall>i < length seq1.
      seq1 ! i = seq2 ! i \<and> getBase rg (pos1 + of_nat i) = Inr (seq1 ! i)))"
proof -
  have n: "unat (of_nat (length seq1) :: uint32_t) = length seq1"
    using assms(4) by (rule unat_of_nat_length)
  show ?thesis
    unfolding equivalentInsertions_lt [OF assms(1,2,3)] assms(5) n by simp
qed

lemma ins_gap_less_ordered:
  assumes "window_ok rg" and "pos1 < pos2" and "length seq1 = length seq2"
    and "length seq1 < 2 ^ 32" and "pos2 - pos1 < of_nat (length seq1)"
  defines "m \<equiv> unat (pos2 - pos1)" and "n \<equiv> length seq1"
  shows "equivalentInsertions rg pos1 seq1 pos2 seq2 =
    Some (Inr ((\<forall>i < m. seq1 ! i = seq2 ! (i + (n - m)) \<and>
                          getBase rg (pos1 + of_nat i) = Inr (seq1 ! i)) \<and>
               (\<forall>i. m \<le> i \<and> i < n \<longrightarrow> seq1 ! i = seq2 ! (i - m))))"
proof -
  have n: "unat (of_nat (length seq1) :: uint32_t) = n"
    unfolding n_def using assms(4) by (rule unat_of_nat_length)
  have sub: "unat ((of_nat (length seq1) :: uint32_t) - (pos2 - pos1)) = n - m"
    using assms(5) n unfolding m_def
    by (simp add: unat_sub word_less_nat_alt word_le_nat_alt)
  have sh: "(\<forall>d < n - m. seq1 ! (m + d) = seq2 ! d) \<longleftrightarrow>
            (\<forall>i. m \<le> i \<and> i < n \<longrightarrow> seq1 ! i = seq2 ! (i - m))"
    by (rule all_shift [of n m "\<lambda>i d. seq1 ! i = seq2 ! d"])
  show ?thesis
    unfolding equivalentInsertions_lt [OF assms(1,2,3)] sub n
    using assms(5) sh by (simp add: m_def [symmetric] add.commute)
qed

section \<open>Properties of the constructor\<close>

lemma symbol_index_in: "symbol ! unat ((x :: uint32_t) AND 3) \<in> set symbol"
proof -
  have "x AND 3 \<le> 3" by (rule word_and_le1)
  then have "unat (x AND 3) \<le> 3" by (simp add: word_le_nat_alt)
  then have "unat (x AND 3) < length symbol" by (simp add: symbol_def)
  then show ?thesis by (rule nth_mem)
qed

lemma decode_loop_no_return:
  assumes "pos \<le> end'" and "\<not> unat (pos - begin') < length sequence"
  shows "decode_loop reader fn begin' end' pos byte rb sequence \<noteq> Some (Inr s')"
  using assms
  by (subst decode_loop.simps)
     (simp add: Let_def split: sum.splits prod.splits option.splits)

lemma decode_loop_result:
  assumes "decode_loop reader fn b e pos byte rb s = Some (Inr s')"
    and "b \<le> pos" and "unat pos \<le> unat e + 1"
    and "length s = unat e - unat b + 1" and "b \<noteq> 0" and "b \<le> e"
  shows "length s' = length s \<and>
         (\<forall>i < length s. (i < unat pos - unat b \<longrightarrow> s' ! i = s ! i) \<and>
                          (unat pos - unat b \<le> i \<longrightarrow> s' ! i \<in> set symbol))"
  using assms
proof (induction "unat e + 1 - unat pos" arbitrary: reader pos byte rb s)
  case 0
  then have gt: "\<not> pos \<le> e" by (simp add: word_le_nat_alt)
  with "0.prems"(1) have "s' = s" by (subst (asm) decode_loop.simps) simp
  moreover have "unat pos - unat b = length s"
    using "0.hyps" "0.prems"(2,3,4,6) by (simp add: word_le_nat_alt)
  ultimately show ?case by simp
next
  case (Suc k)
  then have le: "pos \<le> e" by (simp add: word_le_nat_alt)
  have idx: "unat (pos - b) = unat pos - unat b"
    using Suc.prems(2) by (simp add: unat_sub)
  have inr: "unat (pos - b) < length s"
    using le Suc.prems(2,4) idx by (simp add: word_le_nat_alt)
  obtain byte' reader' c where c: "c \<in> set symbol"
    and rec: "decode_loop reader' fn b e (pos + 1) byte' (2 * (3 - ((pos - 1) AND 3)) = 0)
                (s[unat (pos - b) := c]) = Some (Inr s')"
    using Suc.prems(1) le inr symbol_index_in
    by (subst (asm) decode_loop.simps)
       (auto simp add: Let_def split: sum.splits prod.splits option.splits if_splits)
  show ?case
  proof (cases "pos = - 1")
    case True
    then have z: "pos + 1 = 0" by simp
    have "unat b \<noteq> 0" using Suc.prems(5) by (simp add: unat_eq_0)
    then have "unat (0 - b) = 2 ^ 32 - unat b"
      using unat_sub_if' [of 0 b] by simp
    moreover have "unat e < 2 ^ 32" using unsigned_less [of e, where ?'a = nat] by simp
    moreover have "unat b \<le> unat e" using Suc.prems(6) by (simp add: word_le_nat_alt)
    ultimately have "\<not> unat (0 - b) < length (s[unat (pos - b) := c])"
      using Suc.prems(4) by simp
    with decode_loop_no_return [of 0 e b] rec z show ?thesis by simp
  next
    case False
    then have "pos < - 1" by (simp add: word_order.not_eq_extremum)
    then have s1: "unat (pos + 1) = Suc (unat pos)" by (rule word_Suc_unat)
    have "length s' = length (s[unat (pos - b) := c]) \<and>
         (\<forall>i < length (s[unat (pos - b) := c]).
            (i < unat (pos + 1) - unat b \<longrightarrow> s' ! i = s[unat (pos - b) := c] ! i) \<and>
            (unat (pos + 1) - unat b \<le> i \<longrightarrow> s' ! i \<in> set symbol))"
    proof (rule Suc.hyps(1) [OF _ rec])
      show "k = unat e + 1 - unat (pos + 1)" using Suc.hyps(2) s1 by simp
      show "b \<le> pos + 1" using Suc.prems(2) s1 by (simp add: word_le_nat_alt)
      show "unat (pos + 1) \<le> unat e + 1" using le s1 by (simp add: word_le_nat_alt)
      show "length (s[unat (pos - b) := c]) = unat e - unat b + 1" using Suc.prems(4) by simp
      show "b \<noteq> 0" by (rule Suc.prems(5))
      show "b \<le> e" by (rule Suc.prems(6))
    qed
    then have len: "length s' = length s"
      and pre: "\<And>i. i < length s \<Longrightarrow> i < Suc (unat pos) - unat b \<Longrightarrow>
                  s' ! i = s[unat (pos - b) := c] ! i"
      and post: "\<And>i. i < length s \<Longrightarrow> Suc (unat pos) - unat b \<le> i \<Longrightarrow> s' ! i \<in> set symbol"
      by (simp_all add: s1)
    have ble: "unat b \<le> unat pos" using Suc.prems(2) by (simp add: word_le_nat_alt)
    show ?thesis
    proof (intro conjI allI impI)
      show "length s' = length s" by (rule len)
    next
      fix i assume i: "i < length s" and "i < unat pos - unat b"
      then show "s' ! i = s ! i" using pre [of i] idx by simp
    next
      fix i assume i: "i < length s" and ge: "unat pos - unat b \<le> i"
      show "s' ! i \<in> set symbol"
      proof (cases "i = unat pos - unat b")
        case True
        then show ?thesis using pre [of i] i idx c ble by simp
      next
        case False
        then show ?thesis using post [of i] i ge ble by simp
      qed
    qed
  qed
qed

lemma mark_unknown_loop_result_aux:
  "mark_unknown_loop b pos stop s = Some r \<Longrightarrow>
   \<forall>s'. r = Inr s' \<longrightarrow>
     length s' = length s \<and> (\<forall>i < length s. s' ! i = s ! i \<or> s' ! i = CHR ''N'')"
proof (erule mark_unknown_loop.raw_induct [rotated], intro allI impI)
  fix loop b pos stop s r s'
  assume IH: "\<And>b pos stop s r. loop b pos stop s = Some r \<Longrightarrow>
     \<forall>s'. r = Inr s' \<longrightarrow>
       length s' = length s \<and> (\<forall>i < length s. s' ! i = s ! i \<or> s' ! i = CHR ''N'')"
    and body: "(if pos \<le> stop
         then if unat (pos - b) < length s
              then loop b (pos + 1) stop (s[unat (pos - b) := CHR ''N''])
              else Some (Inl out_of_bounds)
         else Some (Inr s)) = Some r"
    and r: "r = Inr s'"
  show "length s' = length s \<and> (\<forall>i < length s. s' ! i = s ! i \<or> s' ! i = CHR ''N'')"
  proof (cases "pos \<le> stop")
    case False
    with body r show ?thesis by simp
  next
    case True
    with body r have inr: "unat (pos - b) < length s"
      and rec: "loop b (pos + 1) stop (s[unat (pos - b) := CHR ''N'']) = Some (Inr s')"
      by (auto split: if_splits)
    from IH [OF rec, rule_format, OF refl]
    have len: "length s' = length s"
      and upd: "\<forall>i < length s. s' ! i = s[unat (pos - b) := CHR ''N''] ! i \<or> s' ! i = CHR ''N''"
      by simp_all
    show ?thesis
    proof (intro conjI allI impI)
      show "length s' = length s" by (rule len)
    next
      fix i assume i: "i < length s"
      from upd [rule_format, OF i] i
      show "s' ! i = s ! i \<or> s' ! i = CHR ''N''"
        by (cases "i = unat (pos - b)") auto
    qed
  qed
qed

lemma mark_unknown_loop_result:
  assumes "mark_unknown_loop b pos stop s = Some (Inr s')"
  shows "length s' = length s \<and> (\<forall>i < length s. s' ! i = s ! i \<or> s' ! i = CHR ''N'')"
  using mark_unknown_loop_result_aux [OF assms] by simp

lemma mark_unknown_blocks_result:
  "mark_unknown_blocks b e nstart nstop n i s = Some (Inr s') \<Longrightarrow>
   length s' = length s \<and> (\<forall>j < length s. s' ! j = s ! j \<or> s' ! j = CHR ''N'')"
proof (induction b e nstart nstop n i s rule: mark_unknown_blocks.induct)
  case (1 b e nstart nstop n i s)
  show ?case
  proof (cases "i < n")
    case False
    with "1.prems" show ?thesis by (subst (asm) mark_unknown_blocks.simps) simp
  next
    case True
    show ?thesis
    proof (cases "unat i < length nstart \<and> unat i < length nstop")
      case False
      with True "1.prems" show ?thesis by (subst (asm) mark_unknown_blocks.simps) auto
    next
      case inr: True
      show ?thesis
      proof (cases "nstart ! unat i \<le> e \<and> nstop ! unat i \<ge> b")
        case False
        with True inr "1.prems"
        have "mark_unknown_blocks b e nstart nstop n (i + 1) s = Some (Inr s')"
          by (subst (asm) mark_unknown_blocks.simps) auto
        with "1.IH"(2) [OF True inr False] show ?thesis by simp
      next
        case hit: True
        define start where "start = (if nstart ! unat i < b then b else nstart ! unat i)"
        define stop where "stop = (if nstop ! unat i > e then e else nstop ! unat i)"
        from True inr hit "1.prems" obtain s1 where
          m: "mark_unknown_loop b start stop s = Some (Inr s1)" and
          rec: "mark_unknown_blocks b e nstart nstop n (i + 1) s1 = Some (Inr s')"
          unfolding start_def stop_def
          by (subst (asm) mark_unknown_blocks.simps)
             (auto simp add: Let_def split: option.splits sum.splits)
        from mark_unknown_loop_result [OF m]
        have a: "length s1 = length s" "\<forall>j < length s. s1 ! j = s ! j \<or> s1 ! j = CHR ''N''"
          by simp_all
        from "1.IH"(1) [OF True inr hit start_def stop_def m refl rec]
        have b: "length s' = length s1" "\<forall>j < length s1. s' ! j = s1 ! j \<or> s' ! j = CHR ''N''"
          by simp_all
        show ?thesis
        proof (intro conjI allI impI)
          show "length s' = length s" using a(1) b(1) by simp
        next
          fix j assume j: "j < length s"
          from a(2) [rule_format, OF j] b(2) [rule_format, of j] j a(1)
          show "s' ! j = s ! j \<or> s' ! j = CHR ''N''" by auto
        qed
      qed
    qed
  qed
qed

lemma unat_window_size:
  assumes "(b::uint32_t) \<noteq> 0" and "b \<le> e"
  shows "unat (e - b + 1) = unat e - unat b + 1"
proof -
  have d: "unat (e - b) = unat e - unat b" using assms(2) by (simp add: unat_sub)
  have "unat b \<noteq> 0" using assms(1) by (simp add: unat_eq_0)
  moreover have "unat e < 2 ^ 32" using unsigned_less [of e, where ?'a = nat] by simp
  ultimately have "unat (e - b) + unat (1::uint32_t) < 2 ^ LENGTH(32)" using d by simp
  then have "unat (e - b + 1) = unat (e - b) + unat (1::uint32_t)"
    by (simp only: unat_add_lem)
  with d show ?thesis by simp
qed

lemma extract_window_result:
  assumes "extract_window reader swapBytes fn chrOffset beginpos endpos = Some (Inr rg)"
  shows "window_ok rg \<and> set (rg_sequence rg) \<subseteq> set symbol \<union> {CHR ''N''}"
proof -
  obtain r7 e nstart nstop n s1 s2 where
    b0: "beginpos \<noteq> 0" and be: "beginpos \<le> e" and
    dec: "decode_loop r7 fn beginpos e beginpos 0 True
            (replicate (unat (e - beginpos + 1)) (CHR 0x00)) = Some (Inr s1)" and
    mark: "mark_unknown_blocks beginpos e nstart nstop n 0 s1 = Some (Inr s2)" and
    rg: "rg = \<lparr>rg_begin = beginpos, rg_end = e, rg_sequence = s2\<rparr>"
    using assms unfolding extract_window_def Let_def
    by (auto split: sum.splits prod.splits option.splits if_splits simp: not_less)
  have len0: "length (replicate (unat (e - beginpos + 1)) (CHR 0x00)) = unat e - unat beginpos + 1"
    using unat_window_size [OF b0 be] by simp
  have "unat beginpos \<le> unat e + 1" using be by (simp add: word_le_nat_alt)
  from decode_loop_result [OF dec order_refl this len0 b0 be]
  have l1: "length s1 = unat e - unat beginpos + 1" and c1: "\<forall>i < length s1. s1 ! i \<in> set symbol"
    using len0 by simp_all
  from mark_unknown_blocks_result [OF mark]
  have l2: "length s2 = length s1" and c2: "\<forall>j < length s1. s2 ! j = s1 ! j \<or> s2 ! j = CHR ''N''"
    by simp_all
  have "set s2 \<subseteq> set symbol \<union> {CHR ''N''}"
  proof
    fix c assume "c \<in> set s2"
    then obtain j where j: "j < length s2" and c: "c = s2 ! j" by (auto simp: in_set_conv_nth)
    with c1 [rule_format, of j] c2 [rule_format, of j] l2
    show "c \<in> set symbol \<union> {CHR ''N''}" by auto
  qed
  moreover have "1 \<le> beginpos"
    using b0 by (simp add: word_le_nat_alt unat_eq_0 Suc_le_eq unat_gt_0)
  then have "window_ok rg"
    unfolding window_ok_def rg using be l1 l2 unat_window_size [OF b0 be]
    by simp
  ultimately show ?thesis by (simp add: rg)
qed

lemma ctor_result:
  assumes "ReferenceGenome_ctor fs fn chrNumber beginpos endpos chrName = Some (Inr rg)"
  shows "\<exists>reader swapBytes chrOffset.
           extract_window reader swapBytes fn chrOffset beginpos endpos = Some (Inr rg)"
  using assms unfolding ReferenceGenome_ctor_def Let_def
  by (auto split: sum.splits prod.splits option.splits if_splits bool.splits)

lemma ctor_window_ok:
  assumes "ReferenceGenome_ctor fs fn chrNumber beginpos endpos chrName = Some (Inr rg)"
  shows "window_ok rg"
  using ctor_result [OF assms] extract_window_result by blast

lemma getBase_in_sequence:
  assumes "window_ok rg"
  shows "getBase rg pos = Inr (CHR ''N'') \<or> (\<exists>c \<in> set (rg_sequence rg). getBase rg pos = Inr c)"
proof (cases "pos < rg_begin rg \<or> pos > rg_end rg")
  case True
  then show ?thesis by (simp add: getBase_def)
next
  case False
  then have "unat (pos - rg_begin rg) < length (rg_sequence rg)"
    using assms unfolding window_ok_def by unat_arith
  with False show ?thesis by (auto simp add: getBase_def)
qed

lemma unat_zero_minus:
  assumes "(b::uint32_t) \<noteq> 0"
  shows "unat (0 - b) = 2 ^ 32 - unat b"
proof -
  have "unat b \<noteq> 0" using assms by (simp add: unat_eq_0)
  then show ?thesis using unat_sub_if' [of 0 b] by simp
qed

lemma mark_unknown_loop_no_return:
  assumes "pos \<le> stop" and "\<not> unat (pos - b) < length s"
  shows "mark_unknown_loop b pos stop s \<noteq> Some (Inr s')"
  using assms by (subst mark_unknown_loop.simps) simp

lemma mark_unknown_loop_below:
  assumes "mark_unknown_loop b pos stop s = Some (Inr s')"
    and "b \<le> pos" and "b \<noteq> 0" and "length s + unat b \<le> 2 ^ 32"
  shows "\<forall>i. i < unat pos - unat b \<longrightarrow> s' ! i = s ! i"
  using assms
proof (induction "unat stop + 1 - unat pos" arbitrary: pos s)
  case 0
  then have "\<not> pos \<le> stop" by (simp add: word_le_nat_alt)
  with "0.prems"(1) have "s' = s" by (subst (asm) mark_unknown_loop.simps) simp
  then show ?case by simp
next
  case (Suc k)
  then have le: "pos \<le> stop" by (simp add: word_le_nat_alt)
  have idx: "unat (pos - b) = unat pos - unat b"
    using Suc.prems(2) by (simp add: unat_sub)
  from Suc.prems(1) le have
    rec: "mark_unknown_loop b (pos + 1) stop (s[unat (pos - b) := CHR ''N'']) = Some (Inr s')"
    by (subst (asm) mark_unknown_loop.simps) (simp split: if_splits)
  show ?case
  proof (cases "pos = - 1")
    case True
    then have z: "pos + 1 = 0" by simp
    have "\<not> unat (0 - b) < length (s[unat (pos - b) := CHR ''N''])"
      using unat_zero_minus [OF Suc.prems(3)] Suc.prems(4) by simp
    with mark_unknown_loop_no_return [of 0 stop b] rec z show ?thesis by simp
  next
    case False
    then have "pos < - 1" by (simp add: word_order.not_eq_extremum)
    then have s1: "unat (pos + 1) = Suc (unat pos)" by (rule word_Suc_unat)
    have "\<forall>i. i < unat (pos + 1) - unat b \<longrightarrow> s' ! i = s[unat (pos - b) := CHR ''N''] ! i"
    proof (rule Suc.hyps(1) [OF _ rec])
      show "k = unat stop + 1 - unat (pos + 1)" using Suc.hyps(2) s1 by simp
      show "b \<le> pos + 1" using Suc.prems(2) s1 by (simp add: word_le_nat_alt)
      show "b \<noteq> 0" by (rule Suc.prems(3))
      show "length (s[unat (pos - b) := CHR ''N'']) + unat b \<le> 2 ^ 32"
        using Suc.prems(4) by simp
    qed
    then show ?thesis
      using idx s1 by auto
  qed
qed

lemma mark_unknown_blocks_below:
  "mark_unknown_blocks b e nstart nstop n i s = Some (Inr s') \<Longrightarrow>
   b \<noteq> 0 \<Longrightarrow> length s + unat b \<le> 2 ^ 32 \<Longrightarrow>
   (\<forall>j. unat i \<le> j \<and> j < unat n \<longrightarrow>
      \<not> (nstart ! j \<le> e \<and> nstop ! j \<ge> b) \<or>
      (b \<le> nstart ! j \<and> k \<le> unat (nstart ! j) - unat b)) \<Longrightarrow>
   \<forall>x < k. s' ! x = s ! x"
proof (induction b e nstart nstop n i s rule: mark_unknown_blocks.induct)
  case (1 b e nstart nstop n i s)
  show ?case
  proof (cases "i < n")
    case False
    with "1.prems"(1) show ?thesis by (subst (asm) mark_unknown_blocks.simps) simp
  next
    case True
    then have si: "unat (i + 1) = Suc (unat i)" by (rule word_Suc_unat)
    have here: "\<not> (nstart ! unat i \<le> e \<and> nstop ! unat i \<ge> b) \<or>
      (b \<le> nstart ! unat i \<and> k \<le> unat (nstart ! unat i) - unat b)"
      using "1.prems"(4) True by (simp add: word_less_nat_alt)
    have later: "\<forall>j. unat (i + 1) \<le> j \<and> j < unat n \<longrightarrow>
      \<not> (nstart ! j \<le> e \<and> nstop ! j \<ge> b) \<or>
      (b \<le> nstart ! j \<and> k \<le> unat (nstart ! j) - unat b)"
      using "1.prems"(4) si by simp
    show ?thesis
    proof (cases "unat i < length nstart \<and> unat i < length nstop")
      case False
      with True "1.prems"(1) show ?thesis by (subst (asm) mark_unknown_blocks.simps) auto
    next
      case inr: True
      show ?thesis
      proof (cases "nstart ! unat i \<le> e \<and> nstop ! unat i \<ge> b")
        case False
        with True inr "1.prems"(1)
        have "mark_unknown_blocks b e nstart nstop n (i + 1) s = Some (Inr s')"
          by (subst (asm) mark_unknown_blocks.simps) auto
        from "1.IH"(2) [OF True inr False this "1.prems"(2,3) later] show ?thesis .
      next
        case hit: True
        with here have bs: "b \<le> nstart ! unat i" and ks: "k \<le> unat (nstart ! unat i) - unat b"
          by auto
        define start where "start = (if nstart ! unat i < b then b else nstart ! unat i)"
        define stop where "stop = (if nstop ! unat i > e then e else nstop ! unat i)"
        have st: "start = nstart ! unat i" using bs by (auto simp add: start_def)
        from True inr hit "1.prems"(1) obtain s1 where
          m: "mark_unknown_loop b start stop s = Some (Inr s1)" and
          rec: "mark_unknown_blocks b e nstart nstop n (i + 1) s1 = Some (Inr s')"
          unfolding start_def stop_def
          by (subst (asm) mark_unknown_blocks.simps)
             (auto simp add: Let_def split: option.splits sum.splits)
        have l1: "length s1 = length s" using mark_unknown_loop_result [OF m] by simp
        have a: "\<forall>x. x < unat start - unat b \<longrightarrow> s1 ! x = s ! x"
          using bs "1.prems"(2,3) by (intro mark_unknown_loop_below [OF m]) (simp_all add: st)
        have b: "\<forall>x < k. s' ! x = s1 ! x"
          using "1.prems"(2,3) l1 later
          by (intro "1.IH"(1) [OF True inr hit start_def stop_def m refl rec]) simp_all
        from a b ks st show ?thesis by auto
      qed
    qed
  qed
qed

lemma decode_first_byte_0x93:
  assumes rd: "read_uint8 reader = Inr (Some 0x93, reader')"
    and e: "4 \<le> e" and len: "length buffer = unat e"
  shows "decode_loop reader fn 1 e 1 byte True buffer =
         decode_loop reader' fn 1 e 5 0x93 True
           (buffer[0 := CHR ''A'', 1 := CHR ''C'', 2 := CHR ''T'', 3 := CHR ''G''])"
proof -
  have le: "1 \<le> e" "2 \<le> e" "3 \<le> e" "4 \<le> e"
    using e by (simp_all add: word_le_nat_alt)
  have l4: "buffer \<noteq> []" "0 < length buffer" "Suc 0 < length buffer" "2 < length buffer"
    "3 < length buffer"
    using e len by (auto simp add: word_le_nat_alt)
  have "decode_loop reader fn 1 e 1 byte True buffer =
        decode_loop reader' fn 1 e 2 0x93 False (buffer[0 := CHR ''A''])"
    using le l4 by (subst decode_loop.simps) (simp add: rd Let_def symbol_def)
  also have "\<dots> = decode_loop reader' fn 1 e 3 0x93 False (buffer[0 := CHR ''A'', 1 := CHR ''C''])"
    using le l4 by (subst decode_loop.simps) (simp add: Let_def symbol_def)
  also have "\<dots> = decode_loop reader' fn 1 e 4 0x93 False
      (buffer[0 := CHR ''A'', 1 := CHR ''C'', 2 := CHR ''T''])"
    using le l4 by (subst decode_loop.simps) (simp add: Let_def symbol_def)
  also have "\<dots> = decode_loop reader' fn 1 e 5 0x93 True
      (buffer[0 := CHR ''A'', 1 := CHR ''C'', 2 := CHR ''T'', 3 := CHR ''G''])"
    using le l4 by (subst decode_loop.simps) (simp add: Let_def symbol_def)
  finally show ?thesis .
qed

section \<open>Reading from the byte stream\<close>

lemma fillBuffer_stream:
  assumes "reader_ok fbytes sz reader" and "buflen reader \<le> offset reader" and "unread reader \<noteq> []"
  shows "\<exists>reader'. fillBuffer reader = Inr (True, reader') \<and> reader_ok fbytes sz reader' \<and>
           unread reader' = unread reader \<and> offset reader' = 0 \<and> buf reader' \<noteq> []"
proof -
  obtain d where d: "fd reader = Some d" using assms(1) by (auto simp: reader_ok_def)
  let ?xs = "drop (fd_pos d) (fd_contents d)"
  let ?bytes = "take (bufsize reader) ?xs"
  have u: "unread reader = ?xs" using d assms(2) by (simp add: unread_def buflen_def)
  then have "?xs \<noteq> []" using assms(3) by simp
  moreover have "0 < bufsize reader" using assms(1) by (simp add: reader_ok_def)
  ultimately have ne: "?bytes \<noteq> []" by (cases ?xs) (auto simp: take_Cons')
  have "drop (fd_pos d + length ?bytes) (fd_contents d) = drop (bufsize reader) ?xs"
    by (simp add: min_def add.commute)
  then have "?bytes @ drop (fd_pos d + length ?bytes) (fd_contents d) = ?xs"
    by (simp only: append_take_drop_id)
  with ne d u assms(1) show ?thesis
    by (simp add: fillBuffer_def Let_def reader_ok_def unread_def)
qed

lemma read_buffer_loop_stream:
  assumes "reader_ok fbytes sz reader" and "n - i \<le> length (unread reader)"
  shows "\<exists>reader'. read_buffer_loop reader n i acc =
             Inr (Some (acc @ take (n - i) (unread reader)), reader') \<and>
           reader_ok fbytes sz reader' \<and> unread reader' = drop (n - i) (unread reader)"
  using assms
proof (induction "n - i" arbitrary: reader i acc)
  case 0
  then show ?case by (subst read_buffer_loop.simps) simp
next
  case (Suc k)
  then have lt: "i < n" and k: "k = n - (i + 1)" by simp_all
  have ne: "unread reader \<noteq> []" using Suc.hyps(2) Suc.prems(2) by auto
  obtain r1 where
    f: "(if offset reader \<ge> buflen reader then fillBuffer reader else Inr (True, reader))
          = Inr (True, r1)"
    and ok1: "reader_ok fbytes sz r1" and u1: "unread r1 = unread reader"
    and in1: "offset r1 < length (buf r1)"
  proof (cases "offset reader \<ge> buflen reader")
    case True
    from fillBuffer_stream [OF Suc.prems(1) True ne] that True show ?thesis by auto
  next
    case False
    with that Suc.prems(1) show ?thesis by (simp add: buflen_def)
  qed
  let ?r2 = "r1\<lparr>offset := offset r1 + 1\<rparr>"
  have split: "drop (offset r1) (buf r1) = buf r1 ! offset r1 # drop (offset r1 + 1) (buf r1)"
    using in1 by (simp add: Cons_nth_drop_Suc)
  have u2: "unread r1 = buf r1 ! offset r1 # unread ?r2"
    using split by (simp add: unread_def)
  have ok2: "reader_ok fbytes sz ?r2" using ok1 by (simp add: reader_ok_def)
  have "length (unread reader) = Suc (length (unread ?r2))"
    using u1 u2 by (metis length_Cons)
  then have len2: "n - (i + 1) \<le> length (unread ?r2)"
    using Suc.prems(2) by simp
  from Suc.hyps(1) [OF k ok2 len2, of "acc @ [buf r1 ! offset r1]"]
  obtain r' where
    rec: "read_buffer_loop ?r2 n (i + 1) (acc @ [buf r1 ! offset r1]) =
            Inr (Some ((acc @ [buf r1 ! offset r1]) @ take (n - (i + 1)) (unread ?r2)), r')"
    and ok': "reader_ok fbytes sz r'" and u': "unread r' = drop (n - (i + 1)) (unread ?r2)"
    by blast
  have "read_buffer_loop reader n i acc =
          read_buffer_loop ?r2 n (i + 1) (acc @ [buf r1 ! offset r1])"
    using lt f by (subst read_buffer_loop.simps) simp
  with rec have res: "read_buffer_loop reader n i acc =
      Inr (Some (acc @ buf r1 ! offset r1 # take (n - (i + 1)) (unread ?r2)), r')"
    by simp
  have ni: "n - i = Suc (n - (i + 1))" using lt by simp
  have ur: "unread reader = buf r1 ! offset r1 # unread ?r2"
    using u1 u2 by simp
  have t: "take (n - i) (unread reader) = buf r1 ! offset r1 # take (n - (i + 1)) (unread ?r2)"
    unfolding ni ur by simp
  have dr: "drop (n - i) (unread reader) = drop (n - (i + 1)) (unread ?r2)"
    unfolding ni ur by simp
  show ?case
    unfolding t dr using res ok' u' by blast
qed

lemma read_buffer_stream:
  assumes "reader_ok fbytes sz reader" and "unread reader = bytes @ rest" and "length bytes = n"
  shows "\<exists>reader'. read_buffer reader n = Inr (Some bytes, reader') \<and>
           reader_ok fbytes sz reader' \<and> unread reader' = rest"
  using read_buffer_loop_stream [of fbytes sz reader n 0 "[]"] assms
  by (simp add: read_buffer_def)

lemma read_uint8_stream:
  assumes "reader_ok fbytes sz reader" and "unread reader = byte # rest"
  shows "\<exists>reader'. read_uint8 reader = Inr (Some byte, reader') \<and>
           reader_ok fbytes sz reader' \<and> unread reader' = rest"
  using read_buffer_stream [of fbytes sz reader "[byte]" rest 1] assms
  by (auto simp add: read_uint8_def)

lemma read_uint32_stream:
  assumes "reader_ok fbytes sz reader" and "unread reader = bytes @ rest" and "length bytes = 4"
  shows "\<exists>reader'. read_uint32 reader swapBytes = Inr (stored_uint32 swapBytes bytes, reader') \<and>
           reader_ok fbytes sz reader' \<and> unread reader' = rest"
  using read_buffer_stream [of fbytes sz reader bytes rest 4] assms
  by (auto simp add: read_uint32_def BinaryReader_read_uint32_def stored_uint32_def)

lemma find_chrOffset_first_hit:
  assumes "reader_ok fbytes sz reader"
    and "unread reader = concat (map entry_bytes es) @ rest"
    and "\<forall>e \<in> set es. length (fst e) < 256 \<and> length (snd e) = 4"
    and "unat i + length es = unat chrCount"
  shows "\<exists>reader'. find_chrOffset reader swapBytes fn chrNumber chrName chrCount i 0 =
           Inr (case List.find (\<lambda>e. name_matches chrNumber chrName (entry_name e) \<and>
                                   stored_uint32 swapBytes (snd e) \<noteq> 0) es of
                  None \<Rightarrow> 0
                | Some e \<Rightarrow> stored_uint32 swapBytes (snd e), reader') \<and>
           reader_ok fbytes sz reader'"
  using assms
proof (induction es arbitrary: reader i)
  case Nil
  then have "\<not> i < chrCount" by (simp add: word_less_nat_alt)
  with Nil.prems(1) show ?case by (subst find_chrOffset.simps) simp
next
  case (Cons e es)
  obtain nm ob where e: "e = (nm, ob)" by (cases e)
  have lt: "i < chrCount" using Cons.prems(4) by (simp add: word_less_nat_alt)
  have nm: "length nm < 256" and ob: "length ob = 4"
    using Cons.prems(3) e by simp_all
  have u0: "unread reader =
      (of_nat (length nm) :: uint8_t) # (nm @ ob @ concat (map entry_bytes es) @ rest)"
    using Cons.prems(2) e entry_bytes_def [of "(nm, ob)"] by simp
  from read_uint8_stream [OF Cons.prems(1) u0] obtain r1 where
    r1: "read_uint8 reader = Inr (Some (of_nat (length nm)), r1)"
    and ok1: "reader_ok fbytes sz r1"
    and u1: "unread r1 = nm @ (ob @ concat (map entry_bytes es) @ rest)"
    by auto
  have ln: "unat (of_nat (length nm) :: uint8_t) = length nm"
    using nm by (simp add: unat_of_nat)
  from read_buffer_stream [OF ok1 u1 refl] obtain r2 where
    r2: "read_buffer r1 (length nm) = Inr (Some nm, r2)" and ok2: "reader_ok fbytes sz r2"
    and u2: "unread r2 = ob @ (concat (map entry_bytes es) @ rest)"
    by auto
  from read_uint32_stream [OF ok2 u2 ob, of swapBytes] obtain r3 where
    r3: "read_uint32 r2 swapBytes = Inr (stored_uint32 swapBytes ob, r3)"
    and ok3: "reader_ok fbytes sz r3"
    and u3: "unread r3 = concat (map entry_bytes es) @ rest"
    by auto
  have nme: "map (\<lambda>byte. char_of (unat byte)) nm = entry_name e"
    using e by (simp add: entry_name_def)
  have step: "find_chrOffset reader swapBytes fn chrNumber chrName chrCount i 0 =
        find_chrOffset r3 swapBytes fn chrNumber chrName chrCount (i + 1)
          (if name_matches chrNumber chrName (entry_name e) then stored_uint32 swapBytes ob else 0)"
    using lt r1 r2 r3 ln nme
    by (subst find_chrOffset.simps) simp
  show ?case
  proof (cases "name_matches chrNumber chrName (entry_name e) \<and> stored_uint32 swapBytes ob \<noteq> 0")
    case True
    then have "find_chrOffset r3 swapBytes fn chrNumber chrName chrCount (i + 1)
          (if name_matches chrNumber chrName (entry_name e) then stored_uint32 swapBytes ob else 0)
        = Inr (stored_uint32 swapBytes ob, r3)"
      by (subst find_chrOffset.simps) simp
    with True step ok3 e show ?thesis by auto
  next
    case False
    then have zero: "(if name_matches chrNumber chrName (entry_name e)
                      then stored_uint32 swapBytes ob else 0) = 0"
      by auto
    have "unat (i + 1) + length es = unat chrCount"
      using Cons.prems(4) word_Suc_unat [OF lt] by simp
    from Cons.IH [OF ok3 u3 _ this] Cons.prems(3) obtain r' where
      "find_chrOffset r3 swapBytes fn chrNumber chrName chrCount (i + 1) 0 =
           Inr (case List.find (\<lambda>e. name_matches chrNumber chrName (entry_name e) \<and>
                                   stored_uint32 swapBytes (snd e) \<noteq> 0) es of
                  None \<Rightarrow> 0
                | Some e \<Rightarrow> stored_uint32 swapBytes (snd e), r')"
      and "reader_ok fbytes sz r'"
      by auto
    with False step zero e show ?thesis by auto
  qed
qed

lemma openFile_stream:
  "openFile (BinaryReader_new DEFAULT_BUFFER_SIZE) (Some bytes) = (True, reader) \<Longrightarrow>
   reader_ok bytes DEFAULT_BUFFER_SIZE reader \<and> unread reader = bytes"
  by (auto simp add: openFile_def BinaryReader_new_def DEFAULT_BUFFER_SIZE_def
        reader_ok_def unread_def)

lemma seek_same_file:
  assumes "reader_ok fbytes sz reader"
  shows "seek reader byteOffset =
         seek \<lparr>fd = Some \<lparr>fd_contents = fbytes, fd_pos = 0\<rparr>, bufsize = sz, buf = [],
               offset = 0\<rparr> byteOffset"
proof -
  obtain d where d: "fd reader = Some d" "fd_contents d = fbytes" and b: "bufsize reader = sz"
    using assms by (auto simp add: reader_ok_def)
  have "d\<lparr>fd_pos := unat byteOffset\<rparr> = \<lparr>fd_contents = fbytes, fd_pos = unat byteOffset\<rparr>"
    using d(2) by (cases d) simp
  moreover have "reader\<lparr>fd := Some \<lparr>fd_contents = fbytes, fd_pos = unat byteOffset\<rparr>,
                        buf := [], offset := 0\<rparr> =
      \<lparr>fd = Some \<lparr>fd_contents = fbytes, fd_pos = unat byteOffset\<rparr>, bufsize = sz, buf = [],
       offset = 0\<rparr>"
    using b by (cases reader) simp
  ultimately show ?thesis using d(1) by (simp add: seek_def)
qed

lemma extract_window_same_file:
  assumes "reader_ok fbytes sz reader"
  shows "extract_window reader swapBytes fn chrOffset beginpos endpos =
         extract_window \<lparr>fd = Some \<lparr>fd_contents = fbytes, fd_pos = 0\<rparr>, bufsize = sz, buf = [],
                          offset = 0\<rparr> swapBytes fn chrOffset beginpos endpos"
  unfolding extract_window_def seek_same_file [OF assms] ..

section \<open>Evaluating the synthetic files\<close>

lemma replicate_numeral: "replicate (numeral k) x = x # replicate (pred_numeral k) x"
  by (simp add: numeral_eq_Suc)

lemma list_update_Cons_numeral: "(x # xs)[numeral k := y] = x # xs[pred_numeral k := y]"
  by (simp add: numeral_eq_Suc)

lemma example_window:
  "ReferenceGenome_ctor example_fs ''example.2bit'' 1 1 4 [] =
     Some (Inr \<lparr>rg_begin = 1, rg_end = 4, rg_sequence = ''ACTG''\<rparr>)"
  by (simp add: ReferenceGenome_ctor_def example_fs_def example_2bit_def NUM_CHROMOSOMES_def
      openFile_def BinaryReader_new_def DEFAULT_BUFFER_SIZE_def BinaryReader_read_uint32_def
      uint32_of_bytes_def read_buffer_def read_buffer_loop.simps buflen_def fillBuffer_def Let_def
      EXPECTED_SIGNATURE_def read_uint32_def swap_uint32_def find_chrOffset.simps read_uint8_def
      name_matches_def chrShortName_def chrLongName_def extract_window_def seek_def
      read_nstart_loop.simps read_nstop_loop.simps decode_loop.simps mark_unknown_blocks.simps
      symbol_def)
     (simp add: char_of_eq_iff replicate_numeral list_update_Cons_numeral)

section \<open>The claims\<close>

text \<open>
  Claim C1, as the code has it. For every window that reads \<open>ACGTACGTACGT\<close> at
  positions 1 to 12, \<open>equivalentInsertions(4, "ACGT", 8, "ACGT")\<close> is false and
  \<open>equivalentInsertions(5, "ACGT", 9, "ACGT")\<close> is true: the code takes \<open>pos - 1\<close> as
  the position before the insertion, so the inserted bases are compared with the
  reference from \<open>pos\<close> on, and the tandem repeat is met at 5 and 9.
\<close>

theorem insertions_tandem_repeat_scenario:
  assumes "map (getBase rg) [1, 2, 3, 4, 5, 6, 7, 8, 9, 10, 11, 12] = map Inr ''ACGTACGTACGT''"
  shows "equivalentInsertions rg 4 ''ACGT'' 8 ''ACGT'' = Some (Inr False) \<and>
         equivalentInsertions rg 5 ''ACGT'' 9 ''ACGT'' = Some (Inr True)"
proof -
  have b: "getBase rg 4 = Inr CHR ''T''" "getBase rg 5 = Inr CHR ''A''"
    "getBase rg 6 = Inr CHR ''C''" "getBase rg 7 = Inr CHR ''G''" "getBase rg 8 = Inr CHR ''T''"
    using assms by simp_all
  have "ins_match_loop rg ''ACGT'' ''ACGT'' 4 0 0 4 = Inr False"
    by (simp add: ins_match_loop.simps string_at_def b)
  moreover have "ins_match_loop rg ''ACGT'' ''ACGT'' 4 0 0 5 = Inr True"
    by (simp add: ins_match_loop.simps string_at_def b)
  ultimately show ?thesis
    by (simp add: equivalentInsertions_def)
qed

theorem insertions_tandem_repeat_scenario_witness:
  "map (getBase \<lparr>rg_begin = 1, rg_end = 12, rg_sequence = ''ACGTACGTACGT''\<rparr>)
       [1, 2, 3, 4, 5, 6, 7, 8, 9, 10, 11, 12] = map Inr ''ACGTACGTACGT'' \<and>
   equivalentInsertions \<lparr>rg_begin = 1, rg_end = 12, rg_sequence = ''ACGTACGTACGT''\<rparr>
       5 ''ACGT'' 9 ''ACGT'' = Some (Inr True)"
proof -
  have h: "map (getBase \<lparr>rg_begin = 1, rg_end = 12, rg_sequence = ''ACGTACGTACGT''\<rparr>)
       [1, 2, 3, 4, 5, 6, 7, 8, 9, 10, 11, 12] = map Inr ''ACGTACGTACGT''"
    by (simp add: getBase_def)
  from insertions_tandem_repeat_scenario [OF h] h show ?thesis by simp
qed

text \<open>
  The call of the claim itself, on the window over positions 1 to 12: the inserted
  \<open>ACGT\<close> is compared with the bases 4 to 7, \<open>TACG\<close>, and the verdict is false.
\<close>

theorem insertions_4_8_not_equivalent:
  "equivalentInsertions \<lparr>rg_begin = 1, rg_end = 12, rg_sequence = ''ACGTACGTACGT''\<rparr>
       4 ''ACGT'' 8 ''ACGT'' = Some (Inr False)"
  by (simp add: equivalentInsertions_def ins_match_loop.simps string_at_def getBase_def)

text \<open>
  Claim C2, as the code has it. With \<open>pos1 \<noteq> pos2\<close>, alleles of one length \<open>n\<close>,
  \<open>j = min(pos1, pos2)\<close>, \<open>v\<close> the allele at the smaller position, \<open>w\<close> the other and
  a gap equal to \<open>n\<close>: the verdict is true exactly when, for every \<open>i\<close> in \<open>[0, n)\<close>,
  \<open>v[i] == w[i]\<close> and \<open>v[i] == getBase(j + i)\<close>. The reference is read from \<open>j\<close> on,
  not from \<open>j + 1\<close>.
\<close>

theorem insertions_gap_equal_length:
  assumes "window_ok rg" and "pos1 \<noteq> pos2" and "length seq1 = length seq2"
    and "length seq1 < 2 ^ 32"
    and "max pos1 pos2 - min pos1 pos2 = of_nat (length seq1)"
  defines "v \<equiv> if pos1 < pos2 then seq1 else seq2"
    and "w \<equiv> if pos1 < pos2 then seq2 else seq1"
  shows "equivalentInsertions rg pos1 seq1 pos2 seq2 =
    Some (Inr (\<forall>i < length seq1.
      v ! i = w ! i \<and> getBase rg (min pos1 pos2 + of_nat i) = Inr (v ! i)))"
proof (cases "pos1 < pos2")
  case True
  then have mm: "min pos1 pos2 = pos1" "max pos1 pos2 = pos2"
    by (auto simp add: min_def max_def)
  have vw: "v = seq1" "w = seq2" using True by (simp_all add: v_def w_def)
  show ?thesis
    unfolding mm vw using assms(5)
    by (intro ins_gap_eq_ordered assms(1,3,4) True) (simp add: mm)
next
  case False
  with assms(2) have lt: "pos2 < pos1" by auto
  then have mm: "min pos1 pos2 = pos2" "max pos1 pos2 = pos1"
    by (auto simp add: min_def max_def)
  have vw: "v = seq2" "w = seq1" using False by (simp_all add: v_def w_def)
  have "equivalentInsertions rg pos2 seq2 pos1 seq1 =
    Some (Inr (\<forall>i < length seq2.
      seq2 ! i = seq1 ! i \<and> getBase rg (pos2 + of_nat i) = Inr (seq2 ! i)))"
    using assms(3,4,5) by (intro ins_gap_eq_ordered assms(1) lt) (simp_all add: mm)
  then show ?thesis
    unfolding mm vw equivalentInsertions_sym [of rg pos1] using assms(3) by simp
qed

theorem insertions_gap_equal_length_witness:
  "window_ok \<lparr>rg_begin = 1, rg_end = 2, rg_sequence = ''AC''\<rparr> \<and> (1::uint32_t) \<noteq> 2 \<and>
   length ''A'' = length ''A'' \<and> length ''A'' < (2::nat) ^ 32 \<and>
   max 1 2 - min 1 2 = (of_nat (length ''A'') :: uint32_t) \<and>
   equivalentInsertions \<lparr>rg_begin = 1, rg_end = 2, rg_sequence = ''AC''\<rparr> 1 ''A'' 2 ''A''
     = Some (Inr True)"
  using insertions_gap_equal_length [of "\<lparr>rg_begin = 1, rg_end = 2, rg_sequence = ''AC''\<rparr>" 1 2 "''A''" "''A''"]
  by (simp add: window_ok_def getBase_def)

text \<open>
  On the window \<open>AC\<close>, inserting \<open>A\<close> at 1 and at 2 is judged equivalent, although
  the base at \<open>j + 1 + 0 = 2\<close> is \<open>C\<close>.
\<close>

theorem insertions_gap_equal_reads_at_j:
  "equivalentInsertions \<lparr>rg_begin = 1, rg_end = 2, rg_sequence = ''AC''\<rparr> 1 ''A'' 2 ''A''
     = Some (Inr True) \<and>
   getBase \<lparr>rg_begin = 1, rg_end = 2, rg_sequence = ''AC''\<rparr> (min 1 2 + 1 + 0) \<noteq> Inr (''A'' ! 0)"
  by (simp add: equivalentInsertions_def ins_match_loop.simps string_at_def getBase_def)

text \<open>
  Claim C3, as the code has it. With \<open>pos1 \<noteq> pos2\<close>, alleles of one length \<open>n\<close>,
  \<open>j = min(pos1, pos2)\<close> and a gap \<open>m < n\<close>: the verdict is true exactly when, for every
  \<open>i\<close> in \<open>[0, m)\<close>, \<open>v[i] == w[i + (n - m)]\<close> and \<open>v[i] == getBase(j + i)\<close>, and for
  every \<open>i\<close> in \<open>[m, n)\<close>, \<open>v[i] == w[i - m]\<close>. The first range has the length of the
  gap, and the reference is read from \<open>j\<close> on.
\<close>

theorem insertions_gap_below_length:
  assumes "window_ok rg" and "pos1 \<noteq> pos2" and "length seq1 = length seq2"
    and "length seq1 < 2 ^ 32"
    and "max pos1 pos2 - min pos1 pos2 < of_nat (length seq1)"
  defines "v \<equiv> if pos1 < pos2 then seq1 else seq2"
    and "w \<equiv> if pos1 < pos2 then seq2 else seq1"
    and "m \<equiv> unat (max pos1 pos2 - min pos1 pos2)"
    and "n \<equiv> length seq1"
  shows "equivalentInsertions rg pos1 seq1 pos2 seq2 =
    Some (Inr ((\<forall>i < m. v ! i = w ! (i + (n - m)) \<and>
                          getBase rg (min pos1 pos2 + of_nat i) = Inr (v ! i)) \<and>
               (\<forall>i. m \<le> i \<and> i < n \<longrightarrow> v ! i = w ! (i - m))))"
proof (cases "pos1 < pos2")
  case True
  then have mm: "min pos1 pos2 = pos1" "max pos1 pos2 = pos2"
    by (auto simp add: min_def max_def)
  have vw: "v = seq1" "w = seq2" using True by (simp_all add: v_def w_def)
  show ?thesis
    unfolding mm vw m_def n_def using assms(5)
    by (intro ins_gap_less_ordered assms(1,3,4) True) (simp add: mm)
next
  case False
  with assms(2) have lt: "pos2 < pos1" by auto
  then have mm: "min pos1 pos2 = pos2" "max pos1 pos2 = pos1"
    by (auto simp add: min_def max_def)
  have vw: "v = seq2" "w = seq1" using False by (simp_all add: v_def w_def)
  have "equivalentInsertions rg pos2 seq2 pos1 seq1 =
    Some (Inr ((\<forall>i < unat (pos1 - pos2). seq2 ! i = seq1 ! (i + (length seq2 - unat (pos1 - pos2))) \<and>
                          getBase rg (pos2 + of_nat i) = Inr (seq2 ! i)) \<and>
               (\<forall>i. unat (pos1 - pos2) \<le> i \<and> i < length seq2 \<longrightarrow>
                     seq2 ! i = seq1 ! (i - unat (pos1 - pos2)))))"
    using assms(3,4,5) by (intro ins_gap_less_ordered assms(1) lt) (simp_all add: mm)
  then show ?thesis
    unfolding mm vw m_def n_def equivalentInsertions_sym [of rg pos1] using assms(3) by simp
qed

theorem insertions_gap_below_length_witness:
  "window_ok \<lparr>rg_begin = 1, rg_end = 2, rg_sequence = ''AC''\<rparr> \<and> (1::uint32_t) \<noteq> 3 \<and>
   length ''ACG'' = length ''GAC'' \<and> length ''ACG'' < (2::nat) ^ 32 \<and>
   max 1 3 - min 1 3 < (of_nat (length ''ACG'') :: uint32_t) \<and>
   equivalentInsertions \<lparr>rg_begin = 1, rg_end = 2, rg_sequence = ''AC''\<rparr> 1 ''ACG'' 3 ''GAC''
     = Some (Inr True)"
  using insertions_gap_below_length [of "\<lparr>rg_begin = 1, rg_end = 2, rg_sequence = ''AC''\<rparr>" 1 3 "''ACG''" "''GAC''"]
  by (simp add: window_ok_def equivalentInsertions_def ins_match_loop.simps ins_rotate_loop.simps
       string_at_def getBase_def)

text \<open>
  On the window \<open>AC\<close>, inserting \<open>ACG\<close> at 1 and \<open>GAC\<close> at 3 (\<open>n = 3\<close>, \<open>m = 2\<close>)
  is judged equivalent, although \<open>v[1]\<close> differs from \<open>w[1 - (n - m)]\<close>, which the
  second range \<open>[n - m, n)\<close> of the claim would compare.
\<close>

theorem insertions_gap_below_ranges:
  "equivalentInsertions \<lparr>rg_begin = 1, rg_end = 2, rg_sequence = ''AC''\<rparr> 1 ''ACG'' 3 ''GAC''
     = Some (Inr True) \<and>
   ''ACG'' ! 1 \<noteq> ''GAC'' ! (1 - (3 - 2))"
  by (simp add: equivalentInsertions_def ins_match_loop.simps ins_rotate_loop.simps
       string_at_def getBase_def)

text \<open>
  Claim C4, as the code has it. With \<open>pos1 \<noteq> pos2\<close>, alleles of one length \<open>n\<close>,
  \<open>j = min(pos1, pos2)\<close> and \<open>k = max(pos1, pos2)\<close>: the verdict is true exactly when
  \<open>getBase(s) == getBase(s + n)\<close> for every \<open>s\<close> in the half-open range \<open>[j, k)\<close>.
\<close>

theorem deletions_periodic_over_gap:
  assumes "window_ok rg" and "pos1 \<noteq> pos2" and "length seq1 = length seq2"
  shows "equivalentDeletions rg pos1 seq1 pos2 seq2 =
    Inr (\<forall>s. min pos1 pos2 \<le> s \<and> s < max pos1 pos2 \<longrightarrow>
           getBase rg s = getBase rg (s + of_nat (length seq1)))"
proof (cases "pos1 < pos2")
  case True
  then have mm: "min pos1 pos2 = pos1" "max pos1 pos2 = pos2"
    by (auto simp add: min_def max_def)
  show ?thesis
    unfolding mm using assms True
    by (simp add: equivalentDeletions_def del_period_loop_spec)
next
  case False
  with assms(2) have lt: "pos2 < pos1" by auto
  then have mm: "min pos1 pos2 = pos2" "max pos1 pos2 = pos1"
    by (auto simp add: min_def max_def)
  show ?thesis
    unfolding mm using assms False
    by (simp add: equivalentDeletions_def del_period_loop_spec)
qed

theorem deletions_periodic_over_gap_witness:
  "window_ok \<lparr>rg_begin = 10, rg_end = 13, rg_sequence = ''AAAA''\<rparr> \<and> (10::uint32_t) \<noteq> 11 \<and>
   length ''AA'' = length ''AA'' \<and>
   equivalentDeletions \<lparr>rg_begin = 10, rg_end = 13, rg_sequence = ''AAAA''\<rparr> 10 ''AA'' 11 ''AA''
     = Inr True"
  using deletions_periodic_over_gap [of "\<lparr>rg_begin = 10, rg_end = 13, rg_sequence = ''AAAA''\<rparr>" 10 11 "''AA''" "''AA''"]
  by (simp add: window_ok_def equivalentDeletions_def del_period_loop.simps getBase_def)

text \<open>
  On the window \<open>AC\<close>, deleting \<open>A\<close> at 1 and \<open>C\<close> at 2 is judged not equivalent:
  the range \<open>[j, k - 1)\<close> of the claim is empty there, but the loop compares the bases at
  1 and 2.
\<close>

theorem deletions_last_gap_position_checked:
  "equivalentDeletions \<lparr>rg_begin = 1, rg_end = 2, rg_sequence = ''AC''\<rparr> 1 ''A'' 2 ''C''
     = Inr False \<and>
   max (1::uint32_t) 2 - 1 = min 1 2"
  by (simp add: equivalentDeletions_def del_period_loop.simps getBase_def)

text \<open>
  Claim C5, as the code has it. Take a window over positions 1 to \<open>end\<close>, with \<open>end\<close> at
  least 4, whose packed stream stores the codes 2, 1, 0, 3 at positions 1 to 4 (the
  byte \<open>0x93\<close>), and let no unknown block cover these positions. When the decoding loop
  and the overlay return, \<open>getBase(1)\<close>, \<open>getBase(2)\<close>, \<open>getBase(3)\<close>, \<open>getBase(4)\<close> are
  \<open>A\<close>, \<open>C\<close>, \<open>T\<close>, \<open>G\<close>: the table maps 0 to T, 1 to C, 2 to A and 3 to G.
\<close>

theorem packed_codes_2_1_0_3:
  assumes rd: "read_uint8 reader = Inr (Some 0x93, reader')"
    and e: "4 \<le> e" and len: "length buffer = unat e"
    and dec: "decode_loop reader fn 1 e 1 byte True buffer = Some (Inr s1)"
    and mark: "mark_unknown_blocks 1 e nstart nstop n 0 s1 = Some (Inr s2)"
    and nohit: "\<forall>j < unat n. nstop ! j < 1 \<or> 4 < nstart ! j"
  shows "map (getBase \<lparr>rg_begin = 1, rg_end = e, rg_sequence = s2\<rparr>) [1, 2, 3, 4] =
           map Inr ''ACTG''"
proof -
  let ?s4 = "buffer[0 := CHR ''A'', 1 := CHR ''C'', 2 := CHR ''T'', 3 := CHR ''G'']"
  have ue: "4 \<le> unat e" using e by (simp add: word_le_nat_alt)
  have dec5: "decode_loop reader' fn 1 e 5 0x93 True ?s4 = Some (Inr s1)"
    using dec decode_first_byte_0x93 [OF rd e len] by simp
  have "length s1 = length ?s4 \<and>
         (\<forall>i < length ?s4. (i < unat (5::uint32_t) - unat (1::uint32_t) \<longrightarrow> s1 ! i = ?s4 ! i) \<and>
                          (unat (5::uint32_t) - unat (1::uint32_t) \<le> i \<longrightarrow> s1 ! i \<in> set symbol))"
    using ue len e by (intro decode_loop_result [OF dec5]) (simp_all add: word_le_nat_alt)
  then have l1: "length s1 = unat e" and d: "\<forall>i < 4. s1 ! i = ?s4 ! i"
    using len ue by auto
  have l2: "length s2 = unat e"
    using mark_unknown_blocks_result [OF mark] l1 by simp
  have ue32: "unat e < 2 ^ 32" using unsigned_less [of e, where ?'a = nat] by simp
  have blocks: "\<forall>j. unat (0::uint32_t) \<le> j \<and> j < unat n \<longrightarrow>
      \<not> (nstart ! j \<le> e \<and> nstop ! j \<ge> 1) \<or>
      (1 \<le> nstart ! j \<and> 4 \<le> unat (nstart ! j) - unat (1::uint32_t))"
  proof (intro allI impI)
    fix j assume "unat (0::uint32_t) \<le> j \<and> j < unat n"
    then have "nstop ! j < 1 \<or> 4 < nstart ! j" using nohit by simp
    then show "\<not> (nstart ! j \<le> e \<and> nstop ! j \<ge> 1) \<or>
      (1 \<le> nstart ! j \<and> 4 \<le> unat (nstart ! j) - unat (1::uint32_t))"
      by (auto simp add: word_le_nat_alt word_less_nat_alt)
  qed
  have m: "\<forall>x < 4. s2 ! x = s1 ! x"
    using l1 ue32 by (intro mark_unknown_blocks_below [OF mark _ _ blocks]) simp_all
  have v: "s2 ! 0 = CHR ''A''" "s2 ! 1 = CHR ''C''" "s2 ! 2 = CHR ''T''" "s2 ! 3 = CHR ''G''"
    using m d len ue by simp_all
  have le: "1 \<le> e" "2 \<le> e" "3 \<le> e" "4 \<le> e"
    using e by (simp_all add: word_le_nat_alt)
  have e0: "e \<noteq> 0" using e by auto
  show ?thesis
    using v le l2 ue e0 by (simp add: getBase_def not_less)
qed

theorem packed_codes_2_1_0_3_witness:
  "read_uint8 \<lparr>fd = Some \<lparr>fd_contents = example_2bit, fd_pos = 41\<rparr>,
               bufsize = DEFAULT_BUFFER_SIZE, buf = [], offset = 0\<rparr> =
     Inr (Some 0x93, \<lparr>fd = Some \<lparr>fd_contents = example_2bit, fd_pos = 42\<rparr>,
                      bufsize = DEFAULT_BUFFER_SIZE, buf = [0x93], offset = 1\<rparr>) \<and>
   (4::uint32_t) \<le> 4 \<and> length (replicate 4 (CHR 0x00)) = unat (4::uint32_t) \<and>
   decode_loop \<lparr>fd = Some \<lparr>fd_contents = example_2bit, fd_pos = 41\<rparr>,
               bufsize = DEFAULT_BUFFER_SIZE, buf = [], offset = 0\<rparr> ''example.2bit'' 1 4 1 0 True
            (replicate 4 (CHR 0x00)) = Some (Inr ''ACTG'') \<and>
   mark_unknown_blocks 1 4 [] [] 0 0 ''ACTG'' = Some (Inr ''ACTG'') \<and>
   map (getBase \<lparr>rg_begin = 1, rg_end = 4, rg_sequence = ''ACTG''\<rparr>) [1, 2, 3, 4] =
     map Inr ''ACTG''"
proof -
  let ?r = "\<lparr>fd = Some \<lparr>fd_contents = example_2bit, fd_pos = 41\<rparr>,
               bufsize = DEFAULT_BUFFER_SIZE, buf = [], offset = 0\<rparr>"
  have r: "read_uint8 ?r =
     Inr (Some 0x93, \<lparr>fd = Some \<lparr>fd_contents = example_2bit, fd_pos = 42\<rparr>,
                      bufsize = DEFAULT_BUFFER_SIZE, buf = [0x93], offset = 1\<rparr>)"
    by (simp add: read_uint8_def read_buffer_def read_buffer_loop.simps buflen_def
          fillBuffer_def Let_def example_2bit_def DEFAULT_BUFFER_SIZE_def)
  have e: "(4::uint32_t) \<le> 4" by simp
  have l: "length (replicate 4 (CHR 0x00)) = unat (4::uint32_t)" by simp
  have d: "decode_loop ?r ''example.2bit'' 1 4 1 0 True (replicate 4 (CHR 0x00)) =
             Some (Inr ''ACTG'')"
    by (simp add: decode_loop.simps r symbol_def Let_def replicate_numeral
          list_update_Cons_numeral)
  have m: "mark_unknown_blocks 1 4 [] [] 0 0 ''ACTG'' = Some (Inr ''ACTG'')"
    by (simp add: mark_unknown_blocks.simps)
  have n: "\<forall>j < unat (0::uint32_t). ([] :: uint32_t list) ! j < 1 \<or> 4 < ([] :: uint32_t list) ! j"
    by simp
  from packed_codes_2_1_0_3 [OF r e l d m n] r e l d m show ?thesis by blast
qed

text \<open>
  The constructor on \<open>example_2bit\<close>, whose stream holds the codes 2, 1, 0, 3: the window
  reads \<open>ACTG\<close>, not \<open>ACGT\<close>.
\<close>

theorem example_file_bases_ACTG:
  "ReferenceGenome_ctor example_fs ''example.2bit'' 1 1 4 [] =
     Some (Inr \<lparr>rg_begin = 1, rg_end = 4, rg_sequence = ''ACTG''\<rparr>) \<and>
   map (getBase \<lparr>rg_begin = 1, rg_end = 4, rg_sequence = ''ACTG''\<rparr>) [1, 2, 3, 4] \<noteq>
     map Inr ''ACGT''"
  using example_window by (simp add: getBase_def)

text \<open>
  Claim C6. For every window the constructor returns and every position, \<open>getBase\<close>
  yields one of \<open>A\<close>, \<open>C\<close>, \<open>G\<close>, \<open>T\<close>, \<open>N\<close>, and it yields \<open>N\<close> for a position below
  \<open>begin\<close> or above \<open>end\<close>; no call reads outside the buffer.
\<close>

theorem constructed_window_bases:
  assumes "ReferenceGenome_ctor fs fn chrNumber beginpos endpos chrName = Some (Inr rg)"
  shows "(\<exists>c \<in> {CHR ''A'', CHR ''C'', CHR ''G'', CHR ''T'', CHR ''N''}. getBase rg pos = Inr c) \<and>
         (pos < rg_begin rg \<or> pos > rg_end rg \<longrightarrow> getBase rg pos = Inr (CHR ''N''))"
proof -
  from ctor_result [OF assms] extract_window_result
  have ok: "window_ok rg" and sub: "set (rg_sequence rg) \<subseteq> set symbol \<union> {CHR ''N''}"
    by blast+
  from getBase_in_sequence [OF ok, of pos] sub
  have "\<exists>c \<in> {CHR ''A'', CHR ''C'', CHR ''G'', CHR ''T'', CHR ''N''}. getBase rg pos = Inr c"
    by (auto simp add: symbol_def)
  then show ?thesis by (simp add: getBase_def)
qed

theorem constructed_window_bases_witness:
  "ReferenceGenome_ctor example_fs ''example.2bit'' 1 1 4 [] =
     Some (Inr \<lparr>rg_begin = 1, rg_end = 4, rg_sequence = ''ACTG''\<rparr>) \<and>
   getBase \<lparr>rg_begin = 1, rg_end = 4, rg_sequence = ''ACTG''\<rparr> 3 = Inr CHR ''T'' \<and>
   getBase \<lparr>rg_begin = 1, rg_end = 4, rg_sequence = ''ACTG''\<rparr> 5 = Inr CHR ''N''"
  using constructed_window_bases [OF example_window, of 3] constructed_window_bases [OF example_window, of 5] example_window
  by (simp add: getBase_def)

text \<open>
  Claim C7. Swapping \<open>(pos1, seq1)\<close> and \<open>(pos2, seq2)\<close> changes the result of neither
  \<open>equivalentInsertions\<close> nor \<open>equivalentDeletions\<close>, on any window.
\<close>

theorem equivalence_symmetric:
  "equivalentInsertions rg pos1 seq1 pos2 seq2 = equivalentInsertions rg pos2 seq2 pos1 seq1 \<and>
   equivalentDeletions rg pos1 seq1 pos2 seq2 = equivalentDeletions rg pos2 seq2 pos1 seq1"
  using equivalentInsertions_sym equivalentDeletions_sym by blast




text \<open>
  Claim C9. With \<open>pos1 \<noteq> pos2\<close> and alleles of one length, the result of
  \<open>equivalentDeletions\<close> is the same for any other pair of alleles of these lengths.
\<close>

theorem deletions_ignore_allele_content:
  assumes "pos1 \<noteq> pos2" and "length seq1 = length seq2"
    and "length seq1' = length seq1" and "length seq2' = length seq2"
  shows "equivalentDeletions rg pos1 seq1' pos2 seq2' = equivalentDeletions rg pos1 seq1 pos2 seq2"
  using assms by (simp add: equivalentDeletions_def)

theorem deletions_ignore_allele_content_witness:
  "(10::uint32_t) \<noteq> 11 \<and> length ''AA'' = length ''AA'' \<and> length ''CG'' = length ''AA'' \<and>
   length ''TN'' = length ''AA'' \<and>
   equivalentDeletions \<lparr>rg_begin = 10, rg_end = 13, rg_sequence = ''AAAA''\<rparr> 10 ''CG'' 11 ''TN'' =
   equivalentDeletions \<lparr>rg_begin = 10, rg_end = 13, rg_sequence = ''AAAA''\<rparr> 10 ''AA'' 11 ''AA''"
  using deletions_ignore_allele_content [of 10 11 "''AA''" "''AA''" "''CG''" "''TN''"
      "\<lparr>rg_begin = 10, rg_end = 13, rg_sequence = ''AAAA''\<rparr>"]
  by simp

text \<open>
  Claim C10. Let the directory of a 2bit file hold the entries \<open>entries\<close>, each a name of
  at most 255 bytes with four offset bytes. The constructor selects the first entry
  whose name matches the requested chromosome and whose stored offset is not 0, and
  extracts the window from the record at that offset: the loop runs past every matching
  entry that stores the offset 0, since a \<open>chrOffset\<close> of 0 is also its sign for
  "not found yet". When no entry matches with a nonzero offset, the constructor fails
  with the chromosome-not-found error.
\<close>

theorem directory_scan_skips_zero_offsets:
  assumes contents: "fs fn = Some fbytes"
    and layout: "fbytes = sig @ ver @ cnt @ res @ concat (map entry_bytes entries) @ rest"
    and lens: "length sig = 4" "length ver = 4" "length cnt = 4" "length res = 4"
    and magic: "uint32_of_bytes sig = EXPECTED_SIGNATURE \<or>
              uint32_of_bytes sig = swap_uint32 EXPECTED_SIGNATURE"
    and count: "stored_uint32 (uint32_of_bytes sig \<noteq> EXPECTED_SIGNATURE) cnt
                  = of_nat (length entries)"
      "length entries < 2 ^ 32"
    and entries: "\<forall>e \<in> set entries. length (fst e) < 256 \<and> length (snd e) = 4"
    and request: "chrName \<noteq> [] \<or> (chrNumber \<noteq> 0 \<and> unat chrNumber \<le> NUM_CHROMOSOMES)"
  shows "ReferenceGenome_ctor fs fn chrNumber beginpos endpos chrName =
    (case List.find (\<lambda>e. name_matches chrNumber chrName (entry_name e) \<and>
             stored_uint32 (uint32_of_bytes sig \<noteq> EXPECTED_SIGNATURE) (snd e) \<noteq> 0) entries of
       None \<Rightarrow>
         Some (Inl (runtime_error
           (''chromosome '' @ (if chrName = [] then chrShortName ! unat chrNumber else chrName)
              @ '' not found in '' @ fn)))
     | Some e \<Rightarrow>
         extract_window
           \<lparr>fd = Some \<lparr>fd_contents = fbytes, fd_pos = 0\<rparr>, bufsize = DEFAULT_BUFFER_SIZE,
            buf = [], offset = 0\<rparr>
           (uint32_of_bytes sig \<noteq> EXPECTED_SIGNATURE) fn
           (stored_uint32 (uint32_of_bytes sig \<noteq> EXPECTED_SIGNATURE) (snd e)) beginpos endpos)"
proof -
  let ?sw = "uint32_of_bytes sig \<noteq> EXPECTED_SIGNATURE"
  let ?hit = "\<lambda>e. name_matches chrNumber chrName (entry_name e) \<and> stored_uint32 ?sw (snd e) \<noteq> 0"
  obtain r0 where o: "openFile (BinaryReader_new DEFAULT_BUFFER_SIZE) (fs fn) = (True, r0)"
    by (simp add: contents openFile_def BinaryReader_new_def)
  from openFile_stream [OF o [unfolded contents]]
  have ok0: "reader_ok fbytes DEFAULT_BUFFER_SIZE r0"
    and u0: "unread r0 = sig @ (ver @ cnt @ res @ concat (map entry_bytes entries) @ rest)"
    by (simp_all add: layout)
  from read_buffer_stream [OF ok0 u0 lens(1)] obtain r1 where
    s1: "BinaryReader_read_uint32 r0 = Inr (Some (uint32_of_bytes sig), r1)"
    and ok1: "reader_ok fbytes DEFAULT_BUFFER_SIZE r1"
    and u1: "unread r1 = ver @ (cnt @ res @ concat (map entry_bytes entries) @ rest)"
    by (auto simp add: BinaryReader_read_uint32_def)
  from read_uint32_stream [OF ok1 u1 lens(2), of ?sw] obtain r2 where
    s2: "read_uint32 r1 ?sw = Inr (stored_uint32 ?sw ver, r2)"
    and ok2: "reader_ok fbytes DEFAULT_BUFFER_SIZE r2"
    and u2: "unread r2 = cnt @ (res @ concat (map entry_bytes entries) @ rest)"
    by auto
  from read_uint32_stream [OF ok2 u2 lens(3), of ?sw] obtain r3 where
    s3: "read_uint32 r2 ?sw = Inr (of_nat (length entries), r3)"
    and ok3: "reader_ok fbytes DEFAULT_BUFFER_SIZE r3"
    and u3: "unread r3 = res @ (concat (map entry_bytes entries) @ rest)"
    unfolding count(1) by auto
  from read_uint32_stream [OF ok3 u3 lens(4), of ?sw] obtain r4 where
    s4: "read_uint32 r3 ?sw = Inr (stored_uint32 ?sw res, r4)"
    and ok4: "reader_ok fbytes DEFAULT_BUFFER_SIZE r4"
    and u4: "unread r4 = concat (map entry_bytes entries) @ rest"
    by auto
  have "unat (0::uint32_t) + length entries = unat (of_nat (length entries) :: uint32_t)"
    using count(2) by (simp add: unat_of_nat)
  from find_chrOffset_first_hit [OF ok4 u4 entries this, of ?sw fn chrNumber chrName]
  obtain r5 where
    s5: "find_chrOffset r4 ?sw fn chrNumber chrName (of_nat (length entries)) 0 0
           = Inr (case List.find ?hit entries of None \<Rightarrow> 0
                  | Some e \<Rightarrow> stored_uint32 ?sw (snd e), r5)"
    and ok5: "reader_ok fbytes DEFAULT_BUFFER_SIZE r5"
    by blast
  have valid: "\<not> (chrName = [] \<and> (chrNumber = 0 \<or> unat chrNumber > NUM_CHROMOSOMES))"
    using request by auto
  have good: "\<not> (uint32_of_bytes sig \<noteq> EXPECTED_SIGNATURE \<and>
                 uint32_of_bytes sig \<noteq> swap_uint32 EXPECTED_SIGNATURE)"
    using magic by auto
  have ctor: "ReferenceGenome_ctor fs fn chrNumber beginpos endpos chrName =
      (if (case List.find ?hit entries of None \<Rightarrow> 0 | Some e \<Rightarrow> stored_uint32 ?sw (snd e)) = 0
       then Some (Inl (runtime_error
              (''chromosome '' @ (if chrName = [] then chrShortName ! unat chrNumber else chrName)
                 @ '' not found in '' @ fn)))
       else extract_window r5 ?sw fn
              (case List.find ?hit entries of None \<Rightarrow> 0 | Some e \<Rightarrow> stored_uint32 ?sw (snd e))
              beginpos endpos)"
    unfolding ReferenceGenome_ctor_def Let_def
    by (simp only: valid good if_False o s1 s2 s3 s4 s5 prod.case sum.case option.case
          bool.case simp_thms if_True)
  show ?thesis
  proof (cases "List.find ?hit entries")
    case None
    then show ?thesis unfolding ctor by simp
  next
    case (Some e)
    then have "stored_uint32 ?sw (snd e) \<noteq> 0" by (auto simp add: find_Some_iff)
    then show ?thesis
      unfolding ctor Some using extract_window_same_file [OF ok5] by simp
  qed
qed

theorem directory_scan_skips_zero_offsets_witness:
  "name_matches 1 [] (entry_name ([0x63, 0x68, 0x72, 0x31], [0, 0, 0, 0])) \<and>
   stored_uint32 False [0, 0, 0, 0] = 0 \<and>
   ReferenceGenome_ctor zero_offset_fs ''zero.2bit'' 1 1 4 [] =
     Some (Inr \<lparr>rg_begin = 1, rg_end = 4, rg_sequence = ''ACTG''\<rparr>) \<and>
   ReferenceGenome_ctor zero_offset_fs ''zero.2bit'' 0 1 4 ''chr1'' =
     Some (Inl (runtime_error ''chromosome chr1 not found in zero.2bit''))"
proof -
  let ?entries = "[([0x63, 0x68, 0x72, 0x31], [0, 0, 0, 0]),
                   ([0x31], [0, 0, 0, 31])] :: (uint8_t list \<times> uint8_t list) list"
  let ?rest = "[0, 0, 0, 4,  0, 0, 0, 0,  0, 0, 0, 0,  0, 0, 0, 0, 0x93] :: uint8_t list"
  have sg: "uint32_of_bytes [0x1A, 0x41, 0x27, 0x43] = EXPECTED_SIGNATURE"
    by (simp add: uint32_of_bytes_def EXPECTED_SIGNATURE_def)
  have h1: "zero_offset_fs ''zero.2bit'' = Some zero_offset_2bit"
    by (simp add: zero_offset_fs_def)
  have h2: "zero_offset_2bit =
      [0x1A, 0x41, 0x27, 0x43] @ [0, 0, 0, 0] @ [0, 0, 0, 2] @ [0, 0, 0, 0] @
            concat (map entry_bytes ?entries) @ ?rest"
    by (simp add: zero_offset_2bit_def entry_bytes_def)
  have h6: "uint32_of_bytes [0x1A, 0x41, 0x27, 0x43] = EXPECTED_SIGNATURE \<or>
            uint32_of_bytes [0x1A, 0x41, 0x27, 0x43] = swap_uint32 EXPECTED_SIGNATURE"
    using sg by simp
  have h7: "stored_uint32 (uint32_of_bytes [0x1A, 0x41, 0x27, 0x43] \<noteq> EXPECTED_SIGNATURE)
              [0, 0, 0, 2] = of_nat (length ?entries)"
    unfolding sg by (simp add: stored_uint32_def uint32_of_bytes_def)
  have h8: "length ?entries < 2 ^ 32" by simp
  have h9: "\<forall>e \<in> set ?entries. length (fst e) < 256 \<and> length (snd e) = 4"
    by simp
  have m1: "name_matches 1 [] (entry_name ([0x63, 0x68, 0x72, 0x31], [0, 0, 0, 0]))"
    by (simp add: name_matches_def entry_name_def chrShortName_def chrLongName_def char_of_eq_iff)
  have m2: "name_matches 1 [] (entry_name ([0x31], [0, 0, 0, 31]))"
    by (simp add: name_matches_def entry_name_def chrShortName_def chrLongName_def char_of_eq_iff)
  have m3: "name_matches 0 ''chr1'' (entry_name ([0x63, 0x68, 0x72, 0x31], [0, 0, 0, 0]))"
    by (simp add: name_matches_def entry_name_def char_of_eq_iff)
  have m4: "\<not> name_matches 0 ''chr1'' (entry_name ([0x31], [0, 0, 0, 31]))"
    by (simp add: name_matches_def entry_name_def char_of_eq_iff)
  have z: "stored_uint32 False [0, 0, 0, 0] = 0"
    by (simp add: stored_uint32_def uint32_of_bytes_def)
  have nz: "stored_uint32 False [0, 0, 0, 31] = 31"
    by (simp add: stored_uint32_def uint32_of_bytes_def)
  have w: "extract_window
           \<lparr>fd = Some \<lparr>fd_contents = zero_offset_2bit, fd_pos = 0\<rparr>,
            bufsize = DEFAULT_BUFFER_SIZE, buf = [], offset = 0\<rparr>
           False ''zero.2bit'' 31 1 4 =
         Some (Inr \<lparr>rg_begin = 1, rg_end = 4, rg_sequence = ''ACTG''\<rparr>)"
    by (simp add: zero_offset_2bit_def DEFAULT_BUFFER_SIZE_def BinaryReader_read_uint32_def
      uint32_of_bytes_def read_buffer_def read_buffer_loop.simps buflen_def fillBuffer_def Let_def
      read_uint32_def read_uint8_def extract_window_def seek_def
      read_nstart_loop.simps read_nstop_loop.simps decode_loop.simps mark_unknown_blocks.simps
      symbol_def)
     (simp add: replicate_numeral list_update_Cons_numeral)
  have a: "ReferenceGenome_ctor zero_offset_fs ''zero.2bit'' 1 1 4 [] =
     Some (Inr \<lparr>rg_begin = 1, rg_end = 4, rg_sequence = ''ACTG''\<rparr>)"
    using directory_scan_skips_zero_offsets [where sig = "[0x1A, 0x41, 0x27, 0x43]"
          and ver = "[0, 0, 0, 0]" and cnt = "[0, 0, 0, 2]" and res = "[0, 0, 0, 0]"
          and entries = ?entries and rest = ?rest and fs = zero_offset_fs
          and fn = "''zero.2bit''" and fbytes = zero_offset_2bit
          and chrNumber = 1 and chrName = "[]" and beginpos = 1 and endpos = 4,
          OF h1 h2 _ _ _ _ h6 h7 h8 h9]
      m1 m2 z nz w
    by (simp add: sg NUM_CHROMOSOMES_def)
  have b: "ReferenceGenome_ctor zero_offset_fs ''zero.2bit'' 0 1 4 ''chr1'' =
     Some (Inl (runtime_error ''chromosome chr1 not found in zero.2bit''))"
    using directory_scan_skips_zero_offsets [where sig = "[0x1A, 0x41, 0x27, 0x43]"
          and ver = "[0, 0, 0, 0]" and cnt = "[0, 0, 0, 2]" and res = "[0, 0, 0, 0]"
          and entries = ?entries and rest = ?rest and fs = zero_offset_fs
          and fn = "''zero.2bit''" and fbytes = zero_offset_2bit
          and chrNumber = 0 and chrName = "''chr1''" and beginpos = 1 and endpos = 4,
          OF h1 h2 _ _ _ _ h6 h7 h8 h9]
      m3 m4 z nz
    by (simp add: sg)
  from m1 z a b show ?thesis by simp
qed

end
